theory Spec2Isabelle
  imports Main "HOL-Library.Word"
begin

section \<open>The topic multiplexing connector (include/rws/connector.hpp)\<close>

text \<open>
  The header defines \<open>topic_params\<close> and the class template \<open>Connector\<close>. The
  Connector keeps two vectors of registrations, one counter for handle ids and a pointer
  to a Node Interface. The embedding keeps the vectors as lists, the counter as a 64-bit
  word (\<open>size_t\<close> on the LP64 platforms the package targets), the objects behind
  \<open>std::shared_ptr\<close> in stores addressed by index with their use count, and the effects
  on the outside (the clock, the calls of client callbacks) in a record of their own.
  The embedding is sequential: every function runs to its end before the next one
  starts, which is what the two mutexes give each list; the mutexes themselves are not
  modelled.
\<close>

subsection \<open>Basic types\<close>

type_synonym size_t = "64 word"
type_synonym serialized_message = "8 word list"

text \<open>
  \<open>rclcpp::Time\<close> and \<open>rclcpp::Duration\<close> are counts of nanoseconds; both are read
  here as integers. The range checks of the rclcpp operators (they throw where a sum
  leaves the 64-bit range) belong to that library and are outside this model.
\<close>

type_synonym time = int
type_synonym duration = int

subsection \<open>struct topic\_params\<close>

record topic_params =
  history_depth :: size_t
  compression :: string
  topic :: string
  type :: string
  latch :: bool
  throttle_rate :: duration

text \<open>The four constructors, in the order of the header.\<close>

definition topic_params0 :: topic_params where
  "topic_params0 =
     \<lparr>history_depth = 10, compression = ''none'', topic = '''', type = '''',
      latch = False, throttle_rate = 0\<rparr>"

definition topic_params2 :: "string \<Rightarrow> string \<Rightarrow> topic_params" where
  "topic_params2 t tp =
     \<lparr>history_depth = 10, compression = ''none'', topic = t, type = tp,
      latch = False, throttle_rate = 0\<rparr>"

definition topic_params5 ::
  "string \<Rightarrow> string \<Rightarrow> size_t \<Rightarrow> string \<Rightarrow> duration \<Rightarrow> topic_params" where
  "topic_params5 t tp qs c tr =
     \<lparr>history_depth = qs, compression = c, topic = t, type = tp,
      latch = False, throttle_rate = tr\<rparr>"

definition topic_params4 :: "string \<Rightarrow> string \<Rightarrow> size_t \<Rightarrow> bool \<Rightarrow> topic_params" where
  "topic_params4 t tp qs l =
     \<lparr>history_depth = qs, compression = ''none'', topic = t, type = tp,
      latch = l, throttle_rate = 0\<rparr>"

text \<open>\<open>topic_params::operator==\<close>, the comparisons in the order of the source.\<close>

definition params_eq :: "topic_params \<Rightarrow> topic_params \<Rightarrow> bool" where
  "params_eq a p \<longleftrightarrow>
     topic a = topic p \<and>
     type a = type p \<and>
     history_depth a = history_depth p \<and>
     throttle_rate a = throttle_rate p \<and>
     compression a = compression p \<and>
     latch a = latch p"

subsection \<open>Quality of service (rclcpp)\<close>

text \<open>
  The parts of \<open>rclcpp::QoS\<close> the Connector touches: the history depth, the durability
  and the reliability. \<open>QoS d\<close> is \<open>rclcpp::QoS(d)\<close>, which keeps the last \<open>d\<close>
  messages and starts from the default profile (volatile, reliable).
\<close>

datatype durability_policy =
  DurabilitySystemDefault | TransientLocal | Volatile | DurabilityUnknown

datatype reliability_policy =
  ReliabilitySystemDefault | Reliable | BestEffort | ReliabilityUnknown

record qos =
  depth :: size_t
  durability :: durability_policy
  reliability :: reliability_policy

definition QoS :: "size_t \<Rightarrow> qos" where
  "QoS d = \<lparr>depth = d, durability = Volatile, reliability = Reliable\<rparr>"

definition transient_local :: "qos \<Rightarrow> qos" where
  "transient_local q = q\<lparr>durability := TransientLocal\<rparr>"

text \<open>One entry of what \<open>get_publishers_info_by_topic\<close> returns.\<close>

record endpoint_info =
  qos_profile :: qos

subsection \<open>The outside world: clock and client callbacks\<close>

text \<open>
  A \<open>subscription_callback\<close> is an opaque \<open>std::function\<close> that is handed the
  params by non-const reference. What the Connector can observe of a call is the time
  that has passed when it ends, what the call has left in the params it was handed, and
  whether it has returned or thrown: a callback is modelled by these three. Every call is
  written to a log, with the params and the message it was given, the clock reading at
  which it started and whether it returned. \<open>now\<close> is what \<open>node_->now()\<close>
  returns; the clock is monotonic (section 6 of the specification), so no call takes a
  negative time. Between two calls of the Connector the clock may stand at any value: a
  dispatch is given the world it runs in.
\<close>

record callback_result =
  elapsed :: nat
  params_left :: topic_params
  throws :: bool

type_synonym subscription_callback = "topic_params \<Rightarrow> serialized_message \<Rightarrow> callback_result"

datatype invocation =
  Delivered size_t topic_params serialized_message time bool
| Replayed topic_params serialized_message time bool

record world =
  now :: time
  invocations :: "invocation list"

definition invoke ::
  "subscription_callback \<Rightarrow> (topic_params \<Rightarrow> serialized_message \<Rightarrow> time \<Rightarrow> bool \<Rightarrow> invocation) \<Rightarrow>
   topic_params \<Rightarrow> serialized_message \<Rightarrow> world \<Rightarrow> world" where
  "invoke cb tag p m w =
     w\<lparr>now := now w + int (elapsed (cb p m)),
       invocations := invocations w @ [tag p m (now w) (\<not> throws (cb p m))]\<rparr>"

subsection \<open>The Node Interface\<close>

text \<open>
  Modelled from the spec: \<open>rws/node_interface.hpp\<close> (the class \<open>NodeInterface\<close>) is
  not among the sources. Section 6 of the specification gives its contract: it reports
  the QoS descriptors of the publishers on a topic, and it creates a transport
  subscription or publication for a topic, a type and a QoS, returning a handle. The
  handle is a \<open>std::shared_ptr\<close>: the object lives in a store, its address is its index
  there, and it carries the number of shared pointers that own it. A creation always
  returns a handle, as the contract states it; a Node Interface that throws is outside
  the model.
\<close>

datatype bound_callback =
  Dispatch topic_params
| OneShot topic_params subscription_callback

record generic_subscription =
  sub_topic :: string
  sub_type :: string
  sub_qos :: qos
  on_message :: bound_callback
  sub_use_count :: nat

record generic_publisher =
  pub_topic :: string
  pub_type :: string
  pub_qos :: qos
  written :: "serialized_message list"
  pub_use_count :: nat

record node_interface =
  publishers_info :: "string \<Rightarrow> endpoint_info list"
  subscriptions :: "generic_subscription list"
  publications :: "generic_publisher list"

definition get_publishers_info_by_topic :: "node_interface \<Rightarrow> string \<Rightarrow> endpoint_info list" where
  "get_publishers_info_by_topic n t = publishers_info n t"

definition create_generic_subscription ::
  "string \<Rightarrow> string \<Rightarrow> qos \<Rightarrow> bound_callback \<Rightarrow> node_interface \<Rightarrow> nat \<times> node_interface" where
  "create_generic_subscription t tp q cb n =
     (length (subscriptions n),
      n\<lparr>subscriptions := subscriptions n @
           [\<lparr>sub_topic = t, sub_type = tp, sub_qos = q, on_message = cb, sub_use_count = 1\<rparr>]\<rparr>)"

definition create_generic_publisher ::
  "string \<Rightarrow> string \<Rightarrow> qos \<Rightarrow> node_interface \<Rightarrow> nat \<times> node_interface" where
  "create_generic_publisher t tp q n =
     (length (publications n),
      n\<lparr>publications := publications n @
           [\<lparr>pub_topic = t, pub_type = tp, pub_qos = q, written = [], pub_use_count = 1\<rparr>]\<rparr>)"

text \<open>
  Copying and destroying a shared pointer. \<open>None\<close> is \<open>nullptr\<close>; an object whose use
  count has reached 0 is destroyed.
\<close>

definition adjust_sub :: "(nat \<Rightarrow> nat) \<Rightarrow> nat option \<Rightarrow> node_interface \<Rightarrow> node_interface" where
  "adjust_sub f ptr n =
     (case ptr of
        None \<Rightarrow> n
      | Some a \<Rightarrow>
          if a < length (subscriptions n)
          then n\<lparr>subscriptions := (subscriptions n)
                 [a := (subscriptions n ! a)\<lparr>sub_use_count := f (sub_use_count (subscriptions n ! a))\<rparr>]\<rparr>
          else n)"

definition adjust_pub :: "(nat \<Rightarrow> nat) \<Rightarrow> nat option \<Rightarrow> node_interface \<Rightarrow> node_interface" where
  "adjust_pub f ptr n =
     (case ptr of
        None \<Rightarrow> n
      | Some a \<Rightarrow>
          if a < length (publications n)
          then n\<lparr>publications := (publications n)
                 [a := (publications n ! a)\<lparr>pub_use_count := f (pub_use_count (publications n ! a))\<rparr>]\<rparr>
          else n)"

definition copy_sub :: "nat option \<Rightarrow> node_interface \<Rightarrow> node_interface" where
  "copy_sub = adjust_sub Suc"

definition reset_sub :: "nat option \<Rightarrow> node_interface \<Rightarrow> node_interface" where
  "reset_sub = adjust_sub (\<lambda>k. k - 1)"

definition copy_pub :: "nat option \<Rightarrow> node_interface \<Rightarrow> node_interface" where
  "copy_pub = adjust_pub Suc"

definition reset_pub :: "nat option \<Rightarrow> node_interface \<Rightarrow> node_interface" where
  "reset_pub = adjust_pub (\<lambda>k. k - 1)"


definition pub_alive :: "node_interface \<Rightarrow> nat \<Rightarrow> bool" where
  "pub_alive n a \<longleftrightarrow> a < length (publications n) \<and> 0 < pub_use_count (publications n ! a)"

text \<open>\<open>PublisherClass::publish\<close>: the message is written to the transport.\<close>

definition publish :: "nat \<Rightarrow> serialized_message \<Rightarrow> node_interface \<Rightarrow> node_interface" where
  "publish a m n =
     (if a < length (publications n)
      then n\<lparr>publications := (publications n)
             [a := (publications n ! a)\<lparr>written := written (publications n ! a) @ [m]\<rparr>]\<rparr>
      else n)"

subsection \<open>Registrations and the Connector\<close>

text \<open>
  \<open>subscriber_handle\<close> and \<open>publisher_handle\<close> share the fields \<open>params\<close>,
  \<open>client_id\<close> and \<open>handle_id\<close>; they are two extensions of one record, so that each
  field keeps the name it has in the source.
\<close>

record handle =
  params :: topic_params
  client_id :: size_t
  handle_id :: size_t

record subscriber_handle = handle +
  subscription :: "nat option"
  callback :: subscription_callback
  last_sent :: time

record publisher_handle = handle +
  publisher :: "nat option"

text \<open>
  The body of the detached thread that \<open>subscribe_to_topic\<close> starts captures
  \<open>params\<close>, \<open>qos\<close> and \<open>handler\<close> by copy.
\<close>

record replay_task =
  replay_params :: topic_params
  replay_qos :: qos
  replay_handler :: subscription_callback

record connector =
  node :: node_interface
  subscribers :: "subscriber_handle list"
  publishers :: "publisher_handle list"
  next_handler_id :: size_t
  replay_threads :: "replay_task list"

definition Connector :: "node_interface \<Rightarrow> connector" where
  "Connector n =
     \<lparr>node = n, subscribers = [], publishers = [], next_handler_id = 0, replay_threads = []\<rparr>"

fun get_subscriber_by_params :: "topic_params \<Rightarrow> subscriber_handle list \<Rightarrow> subscriber_handle option" where
  "get_subscriber_by_params p [] = None"
| "get_subscriber_by_params p (sub # rest) =
     (if params_eq (params sub) p then Some sub else get_subscriber_by_params p rest)"

fun get_publisher_by_params :: "topic_params \<Rightarrow> publisher_handle list \<Rightarrow> publisher_handle option" where
  "get_publisher_by_params p [] = None"
| "get_publisher_by_params p (pub # rest) =
     (if params_eq (params pub) p then Some pub else get_publisher_by_params p rest)"

definition is_subscribed_to_topic :: "topic_params \<Rightarrow> connector \<Rightarrow> bool" where
  "is_subscribed_to_topic p c \<longleftrightarrow> get_subscriber_by_params p (subscribers c) \<noteq> None"

definition is_advertising_topic :: "topic_params \<Rightarrow> connector \<Rightarrow> bool" where
  "is_advertising_topic p c \<longleftrightarrow> get_publisher_by_params p (publishers c) \<noteq> None"

subsection \<open>subscribe\_to\_topic\<close>

text \<open>
  The loop over the publishers' descriptors: each one overwrites the durability and the
  reliability of \<open>qos\<close>.
\<close>

fun apply_publishers_info :: "qos \<Rightarrow> endpoint_info list \<Rightarrow> qos" where
  "apply_publishers_info q [] = q"
| "apply_publishers_info q (nd # info) =
     apply_publishers_info
       (q\<lparr>durability := durability (qos_profile nd),
          reliability := reliability (qos_profile nd)\<rparr>) info"

definition subscribe_qos :: "topic_params \<Rightarrow> node_interface \<Rightarrow> qos" where
  "subscribe_qos p n =
     apply_publishers_info (QoS (history_depth p)) (get_publishers_info_by_topic n (topic p))"

text \<open>
  The function returns the revocation closure, which captures \<open>this\<close> and the handle
  id: the closure is modelled by the id, and calling it by \<open>revoke_subscriber\<close> below.
  Starting the detached thread adds its task to \<open>replay_threads\<close>; what the thread then
  does is \<open>replay_thread\<close>. The local \<open>handle\<close> is copied into the vector and
  destroyed on return, so each registration owns its subscription once.
\<close>

definition subscribe_to_topic ::
  "16 word \<Rightarrow> topic_params \<Rightarrow> subscription_callback \<Rightarrow> connector \<Rightarrow> size_t \<times> connector" where
  "subscribe_to_topic cid p handler c =
     (let matching_subscriber = get_subscriber_by_params p (subscribers c);
          hid = next_handler_id c;
          c1 = c\<lparr>next_handler_id := next_handler_id c + 1\<rparr>;
          q = subscribe_qos p (node c1);
          is_transient_local = (durability q = TransientLocal);
          (sub, c2) =
            (case matching_subscriber of
               None \<Rightarrow>
                 (let (a, n') = create_generic_subscription (topic p) (type p) q (Dispatch p) (node c1)
                  in (Some a, c1\<lparr>node := n'\<rparr>))
             | Some ms \<Rightarrow>
                 (let c' = c1\<lparr>node := copy_sub (subscription ms) (node c1)\<rparr>
                  in (subscription ms,
                      if is_transient_local
                      then c'\<lparr>replay_threads := replay_threads c' @
                             [\<lparr>replay_params = p, replay_qos = q, replay_handler = handler\<rparr>]\<rparr>
                      else c')));
          h = \<lparr>params = p, client_id = ucast cid, handle_id = hid,
               subscription = sub, callback = handler, last_sent = 0\<rparr>
      in (hid, c2\<lparr>subscribers := subscribers c2 @ [h]\<rparr>))"

text \<open>
  The revocation closures: the loop erases the first registration with the captured id
  and stops. Erasing a registration destroys its shared pointer.
\<close>

fun erase_handle :: "size_t \<Rightarrow> ('a handle_scheme) list \<Rightarrow> ('a handle_scheme) list" where
  "erase_handle hid [] = []"
| "erase_handle hid (r # rest) =
     (if handle_id r = hid then rest else r # erase_handle hid rest)"

fun find_handle :: "size_t \<Rightarrow> ('a handle_scheme) list \<Rightarrow> ('a handle_scheme) option" where
  "find_handle hid [] = None"
| "find_handle hid (r # rest) =
     (if handle_id r = hid then Some r else find_handle hid rest)"

definition revoke_subscriber :: "size_t \<Rightarrow> connector \<Rightarrow> connector" where
  "revoke_subscriber hid c =
     (case find_handle hid (subscribers c) of
        None \<Rightarrow> c
      | Some r \<Rightarrow>
          c\<lparr>subscribers := erase_handle hid (subscribers c),
            node := reset_sub (subscription r) (node c)\<rparr>)"

definition revoke_publisher :: "size_t \<Rightarrow> connector \<Rightarrow> connector" where
  "revoke_publisher hid c =
     (case find_handle hid (publishers c) of
        None \<Rightarrow> c
      | Some r \<Rightarrow>
          c\<lparr>publishers := erase_handle hid (publishers c),
            node := reset_pub (publisher r) (node c)\<rparr>)"

subsection \<open>advertise\_topic\<close>

definition advertise_qos :: "topic_params \<Rightarrow> qos" where
  "advertise_qos p =
     (let q = QoS (history_depth p) in if latch p then transient_local q else q)"

text \<open>
  The function assigns the forward function to \<open>cb_in\<close> and returns the revocation
  closure. The forward function captures a copy \<open>p\<close> of the shared pointer: it is
  modelled by that pointer, and calling it by \<open>forward\<close>. The result is the forward
  function, the captured handle id and the new state.
\<close>

definition advertise_topic ::
  "16 word \<Rightarrow> topic_params \<Rightarrow> connector \<Rightarrow> nat option \<times> size_t \<times> connector" where
  "advertise_topic cid p c =
     (let matching_publisher = get_publisher_by_params p (publishers c);
          hid = next_handler_id c;
          c1 = c\<lparr>next_handler_id := next_handler_id c + 1\<rparr>;
          q = advertise_qos p;
          (pub, c2) =
            (case matching_publisher of
               None \<Rightarrow>
                 (let (a, n') = create_generic_publisher (topic p) (type p) q (node c1)
                  in (Some a, c1\<lparr>node := n'\<rparr>))
             | Some mp \<Rightarrow> (publisher mp, c1\<lparr>node := copy_pub (publisher mp) (node c1)\<rparr>));
          h = \<lparr>params = p, client_id = ucast cid, handle_id = hid, publisher = pub\<rparr>;
          c3 = c2\<lparr>publishers := publishers c2 @ [h]\<rparr>
      in (pub, hid, c3\<lparr>node := copy_pub pub (node c3)\<rparr>))"

definition forward :: "nat option \<Rightarrow> serialized_message \<Rightarrow> connector \<Rightarrow> connector" where
  "forward fn m c = (case fn of None \<Rightarrow> c | Some a \<Rightarrow> c\<lparr>node := publish a m (node c)\<rparr>)"

text \<open>The client destroys the forward function it holds.\<close>

definition drop_forward :: "nat option \<Rightarrow> connector \<Rightarrow> connector" where
  "drop_forward fn c = c\<lparr>node := reset_pub fn (node c)\<rparr>"

subsection \<open>topic\_message\_callback\<close>

text \<open>
  The loop over \<open>subscribers_\<close>. The conjunction and the disjunction of the condition
  are evaluated as C++ does, left to right; the clock is read once in the condition and
  once more after the callback has returned. \<open>params\<close> is the key bound to the
  transport subscription by \<open>std::bind\<close>; the function and every callback receive it by
  reference, so what a callback leaves in it is the key for the registrations after it
  and, since the bound object keeps it, for the messages after this one. An exception
  thrown by a callback leaves the loop at once: the assignment to \<open>last_sent\<close> is not
  reached and the registrations after it are not visited. The result is the vector, the
  key and the world as the loop leaves them, and whether it was left by an exception.
\<close>

record dispatched =
  subs_left :: "subscriber_handle list"
  key_left :: topic_params
  world_left :: world
  thrown :: bool

fun dispatch_loop ::
  "topic_params \<Rightarrow> serialized_message \<Rightarrow> subscriber_handle list \<Rightarrow> world \<Rightarrow> dispatched" where
  "dispatch_loop p m [] w =
     \<lparr>subs_left = [], key_left = p, world_left = w, thrown = False\<rparr>"
| "dispatch_loop p m (sub # rest) w =
     (if params_eq (params sub) p \<and>
         (throttle_rate p = 0 \<or> last_sent sub + throttle_rate p < now w)
      then
        (let w1 = invoke (callback sub) (Delivered (handle_id sub)) p m w;
             p1 = params_left (callback sub p m)
         in if throws (callback sub p m)
            then \<lparr>subs_left = sub # rest, key_left = p1, world_left = w1, thrown = True\<rparr>
            else (let r = dispatch_loop p1 m rest w1
                  in r\<lparr>subs_left := sub\<lparr>last_sent := now w1\<rparr> # subs_left r\<rparr>))
      else
        (let r = dispatch_loop p m rest w
         in r\<lparr>subs_left := sub # subs_left r\<rparr>))"

definition topic_message_callback ::
  "topic_params \<Rightarrow> serialized_message \<Rightarrow> connector \<times> world \<Rightarrow>
   (connector \<times> world) \<times> topic_params \<times> bool" where
  "topic_message_callback p m cw =
     (let r = dispatch_loop p m (subscribers (fst cw)) (snd cw)
      in (((fst cw)\<lparr>subscribers := subs_left r\<rparr>, world_left r), key_left r, thrown r))"

subsection \<open>The replay thread\<close>

text \<open>
  The thread creates a second subscription whose callback calls \<open>handler\<close> and sets
  \<open>fired\<close>, yields until \<open>fired\<close> is set, and resets the subscription. What the
  transport delivers while the thread is not running is a parameter: the schedule gives,
  for each time the thread yields, the messages the transport hands to the one-shot
  callback before the thread reads \<open>fired\<close> again; after the end of the schedule no
  message arrives any more. \<open>oneshot_callback\<close> runs the callback once for each
  message of such a round. The callback calls \<open>handler\<close> with its own bound copy of the
  params, by reference, and sets \<open>fired\<close> when \<open>handler\<close> has returned; when
  \<open>handler\<close> throws, \<open>fired\<close> is not set by that call. A wait that never ends is the
  value \<open>None\<close>.
\<close>

record oneshot_state =
  bound :: topic_params
  fired :: bool
  seen :: world

fun oneshot_callback :: "replay_task \<Rightarrow> serialized_message list \<Rightarrow> oneshot_state \<Rightarrow> oneshot_state" where
  "oneshot_callback t [] s = s"
| "oneshot_callback t (m # ms) s =
     oneshot_callback t ms
       \<lparr>bound = params_left (replay_handler t (bound s) m),
        fired = (fired s \<or> \<not> throws (replay_handler t (bound s) m)),
        seen = invoke (replay_handler t) Replayed (bound s) m (seen s)\<rparr>"


definition replay_create :: "replay_task \<Rightarrow> node_interface \<Rightarrow> nat \<times> node_interface" where
  "replay_create t n =
     create_generic_subscription (topic (replay_params t)) (type (replay_params t))
       (replay_qos t) (OneShot (replay_params t) (replay_handler t)) n"


subsection \<open>Sequences of calls\<close>

text \<open>A sequence of \<open>subscribe_to_topic\<close> calls with the same Topic Parameters.\<close>

fun subscribe_all ::
  "(16 word \<times> subscription_callback) list \<Rightarrow> topic_params \<Rightarrow> connector \<Rightarrow> connector" where
  "subscribe_all [] p c = c"
| "subscribe_all (call # calls) p c =
     subscribe_all calls p (snd (subscribe_to_topic (fst call) p (snd call) c))"

text \<open>
  A sequence of calls of the public functions and of revocation closures; \<open>run\<close>
  returns the handle ids issued, in the order of the calls, and the final state.
\<close>

datatype request =
  Subscribe "16 word" topic_params subscription_callback
| Advertise "16 word" topic_params
| RevokeSubscriber size_t
| RevokePublisher size_t

fun run :: "request list \<Rightarrow> connector \<Rightarrow> size_t list \<times> connector" where
  "run [] c = ([], c)"
| "run (Subscribe cid p h # rs) c =
     (let (hid, c1) = subscribe_to_topic cid p h c; (ids, c2) = run rs c1 in (hid # ids, c2))"
| "run (Advertise cid p # rs) c =
     (let (fn, hid, c1) = advertise_topic cid p c; (ids, c2) = run rs c1 in (hid # ids, c2))"
| "run (RevokeSubscriber hid # rs) c = run rs (revoke_subscriber hid c)"
| "run (RevokePublisher hid # rs) c = run rs (revoke_publisher hid c)"

fun revoke_publishers :: "size_t list \<Rightarrow> connector \<Rightarrow> connector" where
  "revoke_publishers [] c = c"
| "revoke_publishers (hid # hids) c = revoke_publishers hids (revoke_publisher hid c)"

subsection \<open>Notions of the specification\<close>

text \<open>
  The throttle condition in the words of the specification: a registration is throttled
  when the rate is not zero and \<open>lastSent + throttleRate\<close> is still in the future.
\<close>

definition throttled_spec :: "topic_params \<Rightarrow> subscriber_handle \<Rightarrow> time \<Rightarrow> bool" where
  "throttled_spec p sub t \<longleftrightarrow> throttle_rate p \<noteq> 0 \<and> t < last_sent sub + throttle_rate p"

text \<open>The same with the boundary on the other side: the instant itself still throttles.\<close>

definition throttled :: "topic_params \<Rightarrow> subscriber_handle \<Rightarrow> time \<Rightarrow> bool" where
  "throttled p sub t \<longleftrightarrow> throttle_rate p \<noteq> 0 \<and> t \<le> last_sent sub + throttle_rate p"

text \<open>
  The key, the world and the exception flag when the loop of
  \<open>topic_message_callback\<close> has gone through the first \<open>i\<close> registrations.
\<close>

definition loop_at ::
  "topic_params \<Rightarrow> serialized_message \<Rightarrow> subscriber_handle list \<Rightarrow> world \<Rightarrow> nat \<Rightarrow> dispatched" where
  "loop_at p m subs w i = dispatch_loop p m (take i subs) w"

text \<open>A call of the callback with these arguments returns and leaves the params as they were.\<close>

definition returns_unchanged ::
  "subscription_callback \<Rightarrow> topic_params \<Rightarrow> serialized_message \<Rightarrow> bool" where
  "returns_unchanged cb p m \<longleftrightarrow> params_left (cb p m) = p \<and> \<not> throws (cb p m)"

text \<open>
  The number of registrations that own the publication at an address, and the state
  invariant that every registration points into the store and is counted there.
\<close>

definition pub_regs :: "nat \<Rightarrow> publisher_handle list \<Rightarrow> nat" where
  "pub_regs a pubs = length (filter (\<lambda>r. publisher r = Some a) pubs)"

definition pubs_owned :: "connector \<Rightarrow> bool" where
  "pubs_owned c \<longleftrightarrow>
     list_all (\<lambda>r. case publisher r of None \<Rightarrow> False
                   | Some a \<Rightarrow> a < length (publications (node c))) (publishers c) \<and>
     list_all (\<lambda>a. pub_regs a (publishers c) \<le> pub_use_count (publications (node c) ! a))
       [0 ..< length (publications (node c))]"

text \<open>
  The state invariant of the handle ids: within each list they are pairwise distinct, and
  all of them are below the counter.
\<close>

definition ids_issued :: "connector \<Rightarrow> bool" where
  "ids_issued c \<longleftrightarrow>
     distinct (map handle_id (subscribers c)) \<and>
     distinct (map handle_id (publishers c)) \<and>
     list_all (\<lambda>r. handle_id r < next_handler_id c) (subscribers c) \<and>
     list_all (\<lambda>r. handle_id r < next_handler_id c) (publishers c)"

text \<open>
  What happens to a Connector in its world: a call of a public function or of a
  revocation closure, a message arriving on a transport subscription whose bound key
  stands at some value, time passing, and a round of messages arriving on the temporary
  subscription of a replay thread whose bound params stand at some value. The calls of
  \<open>subscribe_to_topic\<close>, the revocations of subscribers and the dispatches hold
  \<open>subscribers_mutex_\<close>, so they follow one another; the one-shot callback of a
  replay thread takes no lock and touches neither the vector nor \<open>last_sent\<close>, and
  a round of it is taken as a step of its own.
\<close>

datatype event =
  Call request
| Inbound topic_params serialized_message
| Elapse nat
| Replay replay_task topic_params "serialized_message list"

fun step :: "event \<Rightarrow> connector \<times> world \<Rightarrow> connector \<times> world" where
  "step (Call r) cw = (snd (run [r] (fst cw)), snd cw)"
| "step (Inbound k m) cw = fst (topic_message_callback k m cw)"
| "step (Elapse d) cw = (fst cw, (snd cw)\<lparr>now := now (snd cw) + int d\<rparr>)"
| "step (Replay t k ms) cw =
     (fst cw, seen (oneshot_callback t ms \<lparr>bound = k, fired = False, seen = snd cw\<rparr>))"

fun execute :: "event list \<Rightarrow> connector \<times> world \<Rightarrow> connector \<times> world" where
  "execute [] cw = cw"
| "execute (e # es) cw = execute es (step e cw)"

text \<open>
  The pacing of a log. \<open>returned_at h log\<close> are the readings at which the calls made by
  dispatch for the registration \<open>h\<close> that have returned were started. An entry is in
  pace with the entries before it when it is a call by the replay thread, or a call by
  dispatch with a key whose rate \<open>T\<close> is not positive, or a call by dispatch that starts
  more than \<open>T\<close> after every earlier call by dispatch for the same registration that has
  returned. A log is spaced when every entry is in pace with the entries before it.
\<close>

fun returned_time :: "size_t \<Rightarrow> invocation \<Rightarrow> time list" where
  "returned_time h (Delivered h' k m t ok) = (if h' = h \<and> ok then [t] else [])"
| "returned_time h (Replayed k m t ok) = []"

definition returned_at :: "size_t \<Rightarrow> invocation list \<Rightarrow> time list" where
  "returned_at h log = concat (map (returned_time h) log)"

fun in_pace :: "invocation list \<Rightarrow> invocation \<Rightarrow> bool" where
  "in_pace earlier (Delivered h k m t ok) =
     (throttle_rate k \<le> 0 \<or>
      list_all (\<lambda>t1. t1 + throttle_rate k < t) (returned_at h earlier))"
| "in_pace earlier (Replayed k m t ok) = True"

definition spaced :: "invocation list \<Rightarrow> bool" where
  "spaced log = list_all (\<lambda>j. in_pace (take j log) (log ! j)) [0 ..< length log]"

text \<open>
  The state invariant behind the pacing: the handle ids are as \<open>ids_issued\<close> says, every
  registration with a positive rate has its \<open>last_sent\<close> at or after the start of every
  call by dispatch for it that has returned, the calls by dispatch in the log are for ids
  below the counter, and the log is spaced.
\<close>

fun issued_before :: "size_t \<Rightarrow> invocation \<Rightarrow> bool" where
  "issued_before x (Delivered h k m t ok) = (h < x)"
| "issued_before x (Replayed k m t ok) = True"

definition pacing_inv :: "connector \<times> world \<Rightarrow> bool" where
  "pacing_inv cw \<longleftrightarrow>
     ids_issued (fst cw) \<and>
     list_all (\<lambda>r. throttle_rate (params r) \<le> 0 \<or>
                 list_all (\<lambda>t1. t1 \<le> last_sent r)
                   (returned_at (handle_id r) (invocations (snd cw))))
       (subscribers (fst cw)) \<and>
     list_all (issued_before (next_handler_id (fst cw))) (invocations (snd cw)) \<and>
     spaced (invocations (snd cw))"

text \<open>
  The publication at an address has an owner outside the publisher list: more shared
  pointers own it than registrations hold it.
\<close>

definition held :: "nat \<Rightarrow> connector \<Rightarrow> bool" where
  "held a c \<longleftrightarrow> a < length (publications (node c)) \<and>
     pub_regs a (publishers c) < pub_use_count (publications (node c) ! a)"

subsection \<open>Example values\<close>

text \<open>
  A node on which no publisher is known, a node that reports one transient-local
  publisher on every topic, and a callback whose call lasts \<open>d\<close> nanoseconds, leaves
  the params as they are and returns.
\<close>

definition quiet_node :: node_interface where
  "quiet_node = \<lparr>publishers_info = (\<lambda>t. []), subscriptions = [], publications = []\<rparr>"

definition latched_node :: node_interface where
  "latched_node =
     \<lparr>publishers_info =
        (\<lambda>t. [\<lparr>qos_profile = \<lparr>depth = 1, durability = TransientLocal, reliability = Reliable\<rparr>\<rparr>]),
      subscriptions = [], publications = []\<rparr>"

definition lasting :: "nat \<Rightarrow> subscription_callback" where
  "lasting d = (\<lambda>p m. \<lparr>elapsed = d, params_left = p, throws = False\<rparr>)"

text \<open>A callback that overwrites the params it is handed, and one that throws.\<close>

definition rewriting :: "topic_params \<Rightarrow> subscription_callback" where
  "rewriting q = (\<lambda>p m. \<lparr>elapsed = 0, params_left = q, throws = False\<rparr>)"

definition throwing :: subscription_callback where
  "throwing = (\<lambda>p m. \<lparr>elapsed = 0, params_left = p, throws = True\<rparr>)"

section \<open>Properties\<close>

subsection \<open>Matching by Topic Parameters\<close>

lemma params_eq_iff: "params_eq a p \<longleftrightarrow> a = p"
  by (cases a, cases p) (auto simp: params_eq_def)

lemma get_subscriber_by_params_find:
  "get_subscriber_by_params p subs = List.find (\<lambda>s. params s = p) subs"
  by (induction subs) (simp_all add: params_eq_iff)

lemma get_publisher_by_params_find:
  "get_publisher_by_params p pubs = List.find (\<lambda>s. params s = p) pubs"
  by (induction pubs) (simp_all add: params_eq_iff)

lemma get_subscriber_append:
  "get_subscriber_by_params p (xs @ ys) =
     (case get_subscriber_by_params p xs of
        None \<Rightarrow> get_subscriber_by_params p ys
      | Some s \<Rightarrow> Some s)"
  by (induction xs) simp_all

lemma subscribe_qos_copy_sub [simp]: "subscribe_qos p (copy_sub ptr n) = subscribe_qos p n"
  by (simp add: subscribe_qos_def get_publishers_info_by_topic_def copy_sub_def adjust_sub_def
      split: option.splits)

text \<open>The two branches of \<open>subscribe_to_topic\<close>, written out.\<close>

lemma subscribe_fresh:
  assumes "get_subscriber_by_params p (subscribers c) = None"
  shows "subscribe_to_topic cid p h c =
     (next_handler_id c,
      c\<lparr>next_handler_id := next_handler_id c + 1,
        node := (node c)\<lparr>subscriptions := subscriptions (node c) @
           [\<lparr>sub_topic = topic p, sub_type = type p, sub_qos = subscribe_qos p (node c),
             on_message = Dispatch p, sub_use_count = 1\<rparr>]\<rparr>,
        subscribers := subscribers c @
           [\<lparr>params = p, client_id = ucast cid, handle_id = next_handler_id c,
             subscription = Some (length (subscriptions (node c))), callback = h,
             last_sent = 0\<rparr>]\<rparr>)"
  using assms
  by (simp add: subscribe_to_topic_def Let_def create_generic_subscription_def)

lemma subscribe_reuse:
  assumes "get_subscriber_by_params p (subscribers c) = Some ms"
  shows "subscribe_to_topic cid p h c =
     (next_handler_id c,
      c\<lparr>next_handler_id := next_handler_id c + 1,
        node := copy_sub (subscription ms) (node c),
        replay_threads := replay_threads c @
           (if durability (subscribe_qos p (node c)) = TransientLocal
            then [\<lparr>replay_params = p, replay_qos = subscribe_qos p (node c),
                   replay_handler = h\<rparr>]
            else []),
        subscribers := subscribers c @
           [\<lparr>params = p, client_id = ucast cid, handle_id = next_handler_id c,
             subscription = subscription ms, callback = h, last_sent = 0\<rparr>]\<rparr>)"
  using assms
  by (simp add: subscribe_to_topic_def Let_def)

text \<open>The two branches of \<open>advertise_topic\<close>, written out.\<close>

lemma advertise_fresh:
  assumes "get_publisher_by_params p (publishers c) = None"
  shows "advertise_topic cid p c =
     (Some (length (publications (node c))), next_handler_id c,
      c\<lparr>next_handler_id := next_handler_id c + 1,
        publishers := publishers c @
           [\<lparr>params = p, client_id = ucast cid, handle_id = next_handler_id c,
             publisher = Some (length (publications (node c)))\<rparr>],
        node := (node c)\<lparr>publications := publications (node c) @
           [\<lparr>pub_topic = topic p, pub_type = type p, pub_qos = advertise_qos p,
             written = [], pub_use_count = 2\<rparr>]\<rparr>\<rparr>)"
  using assms
  by (simp add: advertise_topic_def Let_def create_generic_publisher_def copy_pub_def
      adjust_pub_def nth_append)

lemma advertise_reuse:
  assumes "get_publisher_by_params p (publishers c) = Some mp"
  shows "advertise_topic cid p c =
     (publisher mp, next_handler_id c,
      c\<lparr>next_handler_id := next_handler_id c + 1,
        publishers := publishers c @
           [\<lparr>params = p, client_id = ucast cid, handle_id = next_handler_id c,
             publisher = publisher mp\<rparr>],
        node := copy_pub (publisher mp) (copy_pub (publisher mp) (node c))\<rparr>)"
  using assms
  by (simp add: advertise_topic_def Let_def)

text \<open>
  C4. Two Topic Parameters compare equal exactly when they are the same value, that is
  when all six fields agree; \<open>get_subscriber_by_params\<close> and
  \<open>get_publisher_by_params\<close> return the first registration, in insertion order, whose
  parameters are that value; and two subscribes with different parameters, neither of
  which has a registration yet, create two transport subscriptions at two addresses, each
  bound to its own dispatch key.
\<close>

theorem topic_params_equality:
  "(params_eq a p \<longleftrightarrow> a = p) \<and>
   (a = p \<longleftrightarrow>
      topic a = topic p \<and> type a = type p \<and> history_depth a = history_depth p \<and>
      compression a = compression p \<and> latch a = latch p \<and>
      throttle_rate a = throttle_rate p) \<and>
   get_subscriber_by_params p subs = List.find (\<lambda>s. params s = p) subs \<and>
   get_publisher_by_params p pubs = List.find (\<lambda>s. params s = p) pubs \<and>
   (a \<noteq> p \<and> get_subscriber_by_params a (subscribers c) = None \<and>
    get_subscriber_by_params p (subscribers c) = None \<longrightarrow>
      (let c1 = snd (subscribe_to_topic cid1 a h1 c);
           c2 = snd (subscribe_to_topic cid2 p h2 c1)
       in length (subscriptions (node c2)) = length (subscriptions (node c)) + 2 \<and>
          map subscription (drop (length (subscribers c)) (subscribers c2)) =
            [Some (length (subscriptions (node c))),
             Some (length (subscriptions (node c)) + 1)] \<and>
          map on_message (drop (length (subscriptions (node c))) (subscriptions (node c2))) =
            [Dispatch a, Dispatch p]))"
proof -
  have eq: "params_eq a p \<longleftrightarrow> a = p"
    by (rule params_eq_iff)
  have fields: "a = p \<longleftrightarrow>
      topic a = topic p \<and> type a = type p \<and> history_depth a = history_depth p \<and>
      compression a = compression p \<and> latch a = latch p \<and>
      throttle_rate a = throttle_rate p"
    by (cases a, cases p) auto
  have two: "length (subscriptions (node c2)) = length (subscriptions (node c)) + 2 \<and>
          map subscription (drop (length (subscribers c)) (subscribers c2)) =
            [Some (length (subscriptions (node c))),
             Some (length (subscriptions (node c)) + 1)] \<and>
          map on_message (drop (length (subscriptions (node c))) (subscriptions (node c2))) =
            [Dispatch a, Dispatch p]"
    if ne: "a \<noteq> p" and na: "get_subscriber_by_params a (subscribers c) = None"
      and np: "get_subscriber_by_params p (subscribers c) = None"
      and c1: "c1 = snd (subscribe_to_topic cid1 a h1 c)"
      and c2: "c2 = snd (subscribe_to_topic cid2 p h2 c1)" for c1 c2
  proof -
    have np1: "get_subscriber_by_params p (subscribers c1) = None"
      using ne np by (simp add: c1 subscribe_fresh [OF na] get_subscriber_append params_eq_iff)
    show ?thesis
      unfolding c2 subscribe_fresh [OF np1]
      by (simp add: c1 subscribe_fresh [OF na])
  qed
  show ?thesis
    using eq fields get_subscriber_by_params_find [of p subs]
      get_publisher_by_params_find [of p pubs] two
    by (simp add: Let_def)
qed

theorem topic_params_equality_witness:
  "topic_params2 ''t'' ''T'' \<noteq> topic_params5 ''t'' ''T'' 10 ''none'' 100 \<and>
   \<not> params_eq (topic_params2 ''t'' ''T'') (topic_params5 ''t'' ''T'' 10 ''none'' 100) \<and>
   get_subscriber_by_params (topic_params2 ''t'' ''T'') (subscribers (Connector quiet_node)) = None \<and>
   map subscription
     (subscribers
        (snd (subscribe_to_topic 2 (topic_params5 ''t'' ''T'' 10 ''none'' 100) (lasting 0)
           (snd (subscribe_to_topic 1 (topic_params2 ''t'' ''T'') (lasting 0)
              (Connector quiet_node)))))) = [Some 0, Some 1]"
proof -
  have ne: "topic_params2 ''t'' ''T'' \<noteq> topic_params5 ''t'' ''T'' 10 ''none'' 100"
    by (simp add: topic_params2_def topic_params5_def)
  have none: "get_subscriber_by_params q (subscribers (Connector quiet_node)) = None" for q
    by (simp add: Connector_def)
  show ?thesis
    using ne none
      topic_params_equality [of "topic_params2 ''t'' ''T''"
        "topic_params5 ''t'' ''T'' 10 ''none'' 100" "[]" "[]" "Connector quiet_node"
        1 "lasting 0" 2 "lasting 0"]
    by (simp add: Let_def Connector_def quiet_node_def)
qed

subsection \<open>The effective QoS of a subscription\<close>

lemma apply_publishers_info_last:
  "apply_publishers_info q info =
     (if info = [] then q
      else q\<lparr>durability := durability (qos_profile (last info)),
             reliability := reliability (qos_profile (last info))\<rparr>)"
  by (induction info arbitrary: q) auto

text \<open>
  C7. The effective QoS of \<open>subscribe_to_topic\<close> has the requested history depth; with
  no publisher reported it keeps the default durability and reliability, and otherwise
  both are those of the last descriptor reported, each descriptor overwriting what the
  ones before it set. A new transport subscription is created with this QoS, and a later
  subscriber starts the replay thread exactly when its durability is transient-local.
\<close>

theorem qos_last_publisher_wins:
  "depth (subscribe_qos p n) = history_depth p \<and>
   (get_publishers_info_by_topic n (topic p) = [] \<longrightarrow>
      durability (subscribe_qos p n) = Volatile \<and> reliability (subscribe_qos p n) = Reliable) \<and>
   (get_publishers_info_by_topic n (topic p) \<noteq> [] \<longrightarrow>
      durability (subscribe_qos p n) =
        durability (qos_profile (last (get_publishers_info_by_topic n (topic p)))) \<and>
      reliability (subscribe_qos p n) =
        reliability (qos_profile (last (get_publishers_info_by_topic n (topic p))))) \<and>
   apply_publishers_info q (info @ [d]) =
     q\<lparr>durability := durability (qos_profile d), reliability := reliability (qos_profile d)\<rparr> \<and>
   (get_subscriber_by_params p (subscribers c) = None \<longrightarrow>
      sub_qos (last (subscriptions (node (snd (subscribe_to_topic cid p h c))))) =
        subscribe_qos p (node c)) \<and>
   (get_subscriber_by_params p (subscribers c) \<noteq> None \<longrightarrow>
      replay_threads (snd (subscribe_to_topic cid p h c)) =
        replay_threads c @
          (if durability (subscribe_qos p (node c)) = TransientLocal
           then [\<lparr>replay_params = p, replay_qos = subscribe_qos p (node c),
                  replay_handler = h\<rparr>]
           else []))"
proof -
  have a: "depth (subscribe_qos p n) = history_depth p"
    by (simp add: subscribe_qos_def apply_publishers_info_last QoS_def)
  have b: "get_publishers_info_by_topic n (topic p) = [] \<Longrightarrow>
      durability (subscribe_qos p n) = Volatile \<and> reliability (subscribe_qos p n) = Reliable"
    by (simp add: subscribe_qos_def QoS_def)
  have c: "get_publishers_info_by_topic n (topic p) \<noteq> [] \<Longrightarrow>
      durability (subscribe_qos p n) =
        durability (qos_profile (last (get_publishers_info_by_topic n (topic p)))) \<and>
      reliability (subscribe_qos p n) =
        reliability (qos_profile (last (get_publishers_info_by_topic n (topic p))))"
    by (simp add: subscribe_qos_def apply_publishers_info_last)
  have d: "apply_publishers_info q (info @ [d]) =
     q\<lparr>durability := durability (qos_profile d), reliability := reliability (qos_profile d)\<rparr>"
    by (simp add: apply_publishers_info_last)
  have e: "get_subscriber_by_params p (subscribers c) = None \<Longrightarrow>
      sub_qos (last (subscriptions (node (snd (subscribe_to_topic cid p h c))))) =
        subscribe_qos p (node c)"
    by (simp add: subscribe_fresh)
  have f: "get_subscriber_by_params p (subscribers c) \<noteq> None \<Longrightarrow>
      replay_threads (snd (subscribe_to_topic cid p h c)) =
        replay_threads c @
          (if durability (subscribe_qos p (node c)) = TransientLocal
           then [\<lparr>replay_params = p, replay_qos = subscribe_qos p (node c),
                  replay_handler = h\<rparr>]
           else [])"
    by (auto simp: subscribe_reuse)
  from a b c d e f show ?thesis by blast
qed

theorem qos_last_publisher_wins_witness:
  "get_publishers_info_by_topic quiet_node (topic (topic_params2 ''map'' ''M'')) = [] \<and>
   durability (subscribe_qos (topic_params2 ''map'' ''M'') quiet_node) = Volatile \<and>
   get_publishers_info_by_topic latched_node (topic (topic_params2 ''map'' ''M'')) \<noteq> [] \<and>
   durability (subscribe_qos (topic_params2 ''map'' ''M'') latched_node) = TransientLocal \<and>
   get_subscriber_by_params (topic_params2 ''map'' ''M'') (subscribers (Connector latched_node)) = None \<and>
   sub_qos (last (subscriptions (node (snd (subscribe_to_topic 1 (topic_params2 ''map'' ''M'')
      (lasting 0) (Connector latched_node)))))) =
     \<lparr>depth = 10, durability = TransientLocal, reliability = Reliable\<rparr> \<and>
   get_subscriber_by_params (topic_params2 ''map'' ''M'')
     (subscribers (snd (subscribe_to_topic 1 (topic_params2 ''map'' ''M'') (lasting 0)
        (Connector latched_node)))) \<noteq> None \<and>
   map replay_qos (replay_threads (snd (subscribe_to_topic 2 (topic_params2 ''map'' ''M'') (lasting 0)
     (snd (subscribe_to_topic 1 (topic_params2 ''map'' ''M'') (lasting 0)
        (Connector latched_node)))))) =
     [\<lparr>depth = 10, durability = TransientLocal, reliability = Reliable\<rparr>]"
proof -
  have i0: "get_publishers_info_by_topic quiet_node (topic (topic_params2 ''map'' ''M'')) = []"
    by (simp add: get_publishers_info_by_topic_def quiet_node_def)
  have i1: "get_publishers_info_by_topic latched_node (topic (topic_params2 ''map'' ''M'')) \<noteq> []"
    by (simp add: get_publishers_info_by_topic_def latched_node_def)
  have n0: "get_subscriber_by_params (topic_params2 ''map'' ''M'')
      (subscribers (Connector latched_node)) = None"
    by (simp add: Connector_def)
  have n1: "get_subscriber_by_params (topic_params2 ''map'' ''M'')
     (subscribers (snd (subscribe_to_topic 1 (topic_params2 ''map'' ''M'') (lasting 0)
        (Connector latched_node)))) \<noteq> None"
    unfolding subscribe_fresh [OF n0]
    by (simp add: get_subscriber_append params_eq_iff Connector_def)
  show ?thesis
    using i0 i1 n0 n1
      qos_last_publisher_wins [of "topic_params2 ''map'' ''M''" quiet_node _ "[]" _
        "Connector latched_node" 1 "lasting 0"]
      qos_last_publisher_wins [of "topic_params2 ''map'' ''M''" latched_node _ "[]" _
        "snd (subscribe_to_topic 1 (topic_params2 ''map'' ''M'') (lasting 0)
           (Connector latched_node))" 2 "lasting 0"]
    unfolding subscribe_fresh [OF n0]
    by (simp add: get_publishers_info_by_topic_def latched_node_def subscribe_qos_def QoS_def
        Connector_def topic_params2_def)
qed

subsection \<open>Revocation\<close>

lemma find_handle_None_iff: "find_handle h rs = None \<longleftrightarrow> h \<notin> handle_id ` set rs"
  by (induction rs) auto

lemma erase_handle_absent: "h \<notin> handle_id ` set rs \<Longrightarrow> erase_handle h rs = rs"
  by (induction rs) auto

lemma erase_handle_filter:
  "distinct (map handle_id rs) \<Longrightarrow> erase_handle h rs = filter (\<lambda>r. handle_id r \<noteq> h) rs"
proof (induction rs)
  case Nil
  then show ?case by simp
next
  case (Cons r rs)
  show ?case
  proof (cases "handle_id r = h")
    case True
    with Cons.prems have "h \<notin> handle_id ` set rs" by auto
    then have "filter (\<lambda>r. handle_id r \<noteq> h) rs = rs"
      by (auto simp: filter_id_conv)
    with True show ?thesis by simp
  next
    case False
    with Cons show ?thesis by simp
  qed
qed

lemma erase_handle_gone:
  "distinct (map handle_id rs) \<Longrightarrow> h \<notin> handle_id ` set (erase_handle h rs)"
  by (auto simp: erase_handle_filter)

lemma revoke_subscriber_absent:
  "h \<notin> handle_id ` set (subscribers c) \<Longrightarrow> revoke_subscriber h c = c"
  by (simp add: revoke_subscriber_def find_handle_None_iff [symmetric])

lemma revoke_publisher_absent:
  "h \<notin> handle_id ` set (publishers c) \<Longrightarrow> revoke_publisher h c = c"
  by (simp add: revoke_publisher_def find_handle_None_iff [symmetric])

lemma subscribers_revoke_subscriber:
  "subscribers (revoke_subscriber h c) = erase_handle h (subscribers c)"
  using erase_handle_absent [of h "subscribers c"] find_handle_None_iff [of h "subscribers c"]
  by (cases "find_handle h (subscribers c)") (auto simp: revoke_subscriber_def)

lemma publishers_revoke_publisher:
  "publishers (revoke_publisher h c) = erase_handle h (publishers c)"
  using erase_handle_absent [of h "publishers c"] find_handle_None_iff [of h "publishers c"]
  by (cases "find_handle h (publishers c)") (auto simp: revoke_publisher_def)

lemma revoke_subscriber_frame:
  "publishers (revoke_subscriber h c) = publishers c \<and>
   next_handler_id (revoke_subscriber h c) = next_handler_id c \<and>
   replay_threads (revoke_subscriber h c) = replay_threads c"
  by (simp add: revoke_subscriber_def split: option.splits)

lemma revoke_publisher_frame:
  "subscribers (revoke_publisher h c) = subscribers c \<and>
   next_handler_id (revoke_publisher h c) = next_handler_id c \<and>
   replay_threads (revoke_publisher h c) = replay_threads c"
  by (simp add: revoke_publisher_def split: option.splits)

text \<open>
  C6. In a state whose handle ids are pairwise distinct, the revocation closure of a
  subscriber (of a publisher) removes the registration with the captured id and keeps
  every other registration, in order and unchanged, whatever its Topic Parameters; the
  other registry is not touched; a second call changes nothing, and so does a call for an
  id that no registration has.
\<close>

theorem revocation_removes_one:
  assumes "distinct (map handle_id (subscribers c))"
    and "distinct (map handle_id (publishers c))"
  shows "subscribers (revoke_subscriber h c) = filter (\<lambda>r. handle_id r \<noteq> h) (subscribers c) \<and>
         publishers (revoke_subscriber h c) = publishers c \<and>
         revoke_subscriber h (revoke_subscriber h c) = revoke_subscriber h c \<and>
         publishers (revoke_publisher h c) = filter (\<lambda>r. handle_id r \<noteq> h) (publishers c) \<and>
         subscribers (revoke_publisher h c) = subscribers c \<and>
         revoke_publisher h (revoke_publisher h c) = revoke_publisher h c \<and>
         (h \<notin> handle_id ` set (subscribers c) \<longrightarrow> revoke_subscriber h c = c) \<and>
         (h \<notin> handle_id ` set (publishers c) \<longrightarrow> revoke_publisher h c = c)"
proof -
  have s: "h \<notin> handle_id ` set (subscribers (revoke_subscriber h c))"
    using assms(1) by (simp add: subscribers_revoke_subscriber erase_handle_gone)
  have p: "h \<notin> handle_id ` set (publishers (revoke_publisher h c))"
    using assms(2) by (simp add: publishers_revoke_publisher erase_handle_gone)
  show ?thesis
    using assms revoke_subscriber_absent [OF s] revoke_publisher_absent [OF p]
      revoke_subscriber_absent [of h c] revoke_publisher_absent [of h c]
    by (simp add: subscribers_revoke_subscriber publishers_revoke_publisher
        erase_handle_filter revoke_subscriber_frame revoke_publisher_frame)
qed

subsection \<open>Handle ids\<close>

lemma subscribe_id:
  "fst (subscribe_to_topic cid p h c) = next_handler_id c \<and>
   next_handler_id (snd (subscribe_to_topic cid p h c)) = next_handler_id c + 1 \<and>
   handle_id (last (subscribers (snd (subscribe_to_topic cid p h c)))) = next_handler_id c"
  by (cases "get_subscriber_by_params p (subscribers c)")
     (simp_all add: subscribe_fresh subscribe_reuse)

lemma advertise_id:
  "fst (snd (advertise_topic cid p c)) = next_handler_id c \<and>
   next_handler_id (snd (snd (advertise_topic cid p c))) = next_handler_id c + 1 \<and>
   handle_id (last (publishers (snd (snd (advertise_topic cid p c))))) = next_handler_id c"
  by (simp add: advertise_topic_def Let_def split: option.splits prod.splits)

lemma map_upt_shift:
  "f 0 # map (\<lambda>k. f (Suc k)) [0..<n] = map f [0..<Suc n]"
  by (simp add: map_upt_Suc del: upt_Suc)

lemma run_ids:
  "run rs c = (ids, c') \<Longrightarrow>
     ids = map (\<lambda>k. next_handler_id c + of_nat k) [0..<length ids] \<and>
     next_handler_id c' = next_handler_id c + of_nat (length ids) \<and>
     length ids \<le> length rs"
proof (induction rs c arbitrary: ids c' rule: run.induct)
  case (1 c)
  then show ?case by simp
next
  case (2 cid p h rs c)
  obtain hid c1 where s: "subscribe_to_topic cid p h c = (hid, c1)"
    by (cases "subscribe_to_topic cid p h c")
  obtain ids' c2 where r: "run rs c1 = (ids', c2)"
    by (cases "run rs c1")
  from subscribe_id [of cid p h c] s
  have hid: "hid = next_handler_id c" and nx: "next_handler_id c1 = next_handler_id c + 1"
    by simp_all
  from "2.prems" s r have ids: "ids = hid # ids'" and c': "c' = c2"
    by simp_all
  from "2.IH" [OF s [symmetric] refl r]
  have ih: "ids' = map (\<lambda>k. next_handler_id c1 + of_nat k) [0..<length ids']"
    "next_handler_id c2 = next_handler_id c1 + of_nat (length ids')"
    "length ids' \<le> length rs"
    by simp_all
  have "ids = (next_handler_id c + of_nat 0) #
      map (\<lambda>k. next_handler_id c + of_nat (Suc k)) [0..<length ids']"
    using ih(1) by (simp add: ids hid nx add.assoc)
  then have "ids = map (\<lambda>k. next_handler_id c + of_nat k) [0..<Suc (length ids')]"
    by (simp only: map_upt_shift [of "\<lambda>k. next_handler_id c + of_nat k"])
  then show ?case
    using ih(2,3) by (simp add: ids c' nx add.assoc)
next
  case (3 cid p rs c)
  obtain fn hid c1 where s: "advertise_topic cid p c = (fn, hid, c1)"
    by (cases "advertise_topic cid p c") auto
  obtain ids' c2 where r: "run rs c1 = (ids', c2)"
    by (cases "run rs c1")
  from advertise_id [of cid p c] s
  have hid: "hid = next_handler_id c" and nx: "next_handler_id c1 = next_handler_id c + 1"
    by simp_all
  from "3.prems" s r have ids: "ids = hid # ids'" and c': "c' = c2"
    by simp_all
  from "3.IH" [OF s [symmetric] refl refl r]
  have ih: "ids' = map (\<lambda>k. next_handler_id c1 + of_nat k) [0..<length ids']"
    "next_handler_id c2 = next_handler_id c1 + of_nat (length ids')"
    "length ids' \<le> length rs"
    by simp_all
  have "ids = (next_handler_id c + of_nat 0) #
      map (\<lambda>k. next_handler_id c + of_nat (Suc k)) [0..<length ids']"
    using ih(1) by (simp add: ids hid nx add.assoc)
  then have "ids = map (\<lambda>k. next_handler_id c + of_nat k) [0..<Suc (length ids')]"
    by (simp only: map_upt_shift [of "\<lambda>k. next_handler_id c + of_nat k"])
  then show ?case
    using ih(2,3) by (simp add: ids c' nx add.assoc)
next
  case (4 hid rs c)
  from "4.IH" [of ids c'] "4.prems" show ?case
    by (simp add: revoke_subscriber_frame)
next
  case (5 hid rs c)
  from "5.IH" [of ids c'] "5.prems" show ?case
    by (simp add: revoke_publisher_frame)
qed

lemma unat_counter:
  "unat (x :: size_t) + k < 2 ^ 64 \<Longrightarrow> unat (x + of_nat k) = unat x + k"
  by (simp add: unat_word_ariths unat_of_nat)

lemma counter_sorted:
  assumes "unat (x :: size_t) + n < 2 ^ 64"
  shows "sorted_wrt (<) (map (\<lambda>k. x + of_nat k) [0..<n])"
proof -
  have "x + of_nat i < x + of_nat j" if "i < j" "j < n" for i j
  proof -
    have "unat (x + of_nat i) = unat x + i" "unat (x + of_nat j) = unat x + j"
      using assms that by (simp_all add: unat_counter)
    with that show ?thesis by (simp add: word_less_nat_alt)
  qed
  then show ?thesis
    by (simp add: sorted_wrt_map sorted_wrt_upt sorted_wrt_iff_nth_less)
qed


theorem revocation_removes_one_witness:
  "distinct (map handle_id (subscribers
     (snd (subscribe_to_topic 2 (topic_params2 ''t'' ''T'') (lasting 0)
       (snd (subscribe_to_topic 1 (topic_params2 ''t'' ''T'') (lasting 0)
         (Connector quiet_node))))))) \<and>
   map client_id (subscribers (revoke_subscriber 0
     (snd (subscribe_to_topic 2 (topic_params2 ''t'' ''T'') (lasting 0)
       (snd (subscribe_to_topic 1 (topic_params2 ''t'' ''T'') (lasting 0)
         (Connector quiet_node))))))) = [2] \<and>
   map client_id (subscribers (revoke_subscriber 0 (revoke_subscriber 0
     (snd (subscribe_to_topic 2 (topic_params2 ''t'' ''T'') (lasting 0)
       (snd (subscribe_to_topic 1 (topic_params2 ''t'' ''T'') (lasting 0)
         (Connector quiet_node)))))))) = [2]"
proof -
  have c2: "snd (subscribe_to_topic 2 (topic_params2 ''t'' ''T'') (lasting 0)
       (snd (subscribe_to_topic 1 (topic_params2 ''t'' ''T'') (lasting 0)
         (Connector quiet_node)))) =
     \<lparr>node = \<lparr>publishers_info = (\<lambda>t. []),
        subscriptions = [\<lparr>sub_topic = ''t'', sub_type = ''T'', sub_qos = QoS 10,
          on_message = Dispatch (topic_params2 ''t'' ''T''), sub_use_count = 2\<rparr>],
        publications = []\<rparr>,
      subscribers =
        [\<lparr>params = topic_params2 ''t'' ''T'', client_id = 1, handle_id = 0,
          subscription = Some 0, callback = lasting 0, last_sent = 0\<rparr>,
         \<lparr>params = topic_params2 ''t'' ''T'', client_id = 2, handle_id = 1,
          subscription = Some 0, callback = lasting 0, last_sent = 0\<rparr>],
      publishers = [], next_handler_id = 2, replay_threads = []\<rparr>"
    by (simp add: subscribe_to_topic_def Let_def create_generic_subscription_def
        Connector_def quiet_node_def subscribe_qos_def get_publishers_info_by_topic_def
        params_eq_def topic_params2_def copy_sub_def adjust_sub_def QoS_def)
  have d: "distinct (map handle_id (subscribers
     (snd (subscribe_to_topic 2 (topic_params2 ''t'' ''T'') (lasting 0)
       (snd (subscribe_to_topic 1 (topic_params2 ''t'' ''T'') (lasting 0)
         (Connector quiet_node)))))))"
    by (simp add: c2)
  have e: "distinct (map handle_id (publishers
     (snd (subscribe_to_topic 2 (topic_params2 ''t'' ''T'') (lasting 0)
       (snd (subscribe_to_topic 1 (topic_params2 ''t'' ''T'') (lasting 0)
         (Connector quiet_node)))))))"
    by (simp add: c2)
  show ?thesis
    using d revocation_removes_one [OF d e, of 0]
    by (simp add: c2)
qed

lemma counter_step:
  assumes "unat (x :: size_t) + 1 < 2 ^ 64"
  shows "x < x + 1"
  using unat_counter [of x 1] assms by (simp add: word_less_nat_alt)

lemma erase_handle_subset: "set (erase_handle h rs) \<subseteq> set rs"
  by (induction rs) auto

lemma erase_handle_distinct:
  "distinct (map handle_id rs) \<Longrightarrow> distinct (map handle_id (erase_handle h rs))"
  by (simp add: erase_handle_filter distinct_map_filter)

lemma ids_issued_Connector: "ids_issued (Connector n)"
  by (simp add: ids_issued_def Connector_def)

lemma ids_issued_step:
  assumes "ids_issued c" and "unat (next_handler_id c) + 1 < 2 ^ 64"
  shows "ids_issued (snd (subscribe_to_topic cid p h c))"
    and "ids_issued (snd (snd (advertise_topic cid p c)))"
proof -
  note lt = counter_step [OF assms(2)]
  have fresh: "next_handler_id c \<notin> handle_id ` set rs"
    if "list_all (\<lambda>r. handle_id r < next_handler_id c) rs" for rs :: "('a handle_scheme) list"
    using that by (auto simp: list_all_iff)
  have up: "list_all (\<lambda>r. handle_id r < next_handler_id c + 1) rs"
    if "list_all (\<lambda>r. handle_id r < next_handler_id c) rs" for rs :: "('a handle_scheme) list"
    using that lt by (auto simp: list_all_iff)
  from assms(1) have d: "distinct (map handle_id (subscribers c))"
    "distinct (map handle_id (publishers c))"
    and b: "list_all (\<lambda>r. handle_id r < next_handler_id c) (subscribers c)"
    "list_all (\<lambda>r. handle_id r < next_handler_id c) (publishers c)"
    by (simp_all add: ids_issued_def)
  show "ids_issued (snd (subscribe_to_topic cid p h c))"
    using d fresh [OF b(1)] up [OF b(1)] up [OF b(2)] lt
    by (cases "get_subscriber_by_params p (subscribers c)")
       (simp_all add: subscribe_fresh subscribe_reuse ids_issued_def)
  show "ids_issued (snd (snd (advertise_topic cid p c)))"
    using d fresh [OF b(2)] up [OF b(1)] up [OF b(2)] lt
    by (cases "get_publisher_by_params p (publishers c)")
       (simp_all add: advertise_fresh advertise_reuse ids_issued_def)
qed

lemma ids_issued_revoke:
  assumes "ids_issued c"
  shows "ids_issued (revoke_subscriber h c)" and "ids_issued (revoke_publisher h c)"
  using assms erase_handle_subset [of h "subscribers c"] erase_handle_subset [of h "publishers c"]
  by (auto simp: ids_issued_def subscribers_revoke_subscriber publishers_revoke_publisher
      revoke_subscriber_frame revoke_publisher_frame erase_handle_distinct list_all_iff)

lemma run_ids_issued:
  "ids_issued c \<Longrightarrow> unat (next_handler_id c) + length rs < 2 ^ 64 \<Longrightarrow>
     ids_issued (snd (run rs c))"
proof (induction rs c rule: run.induct)
  case (1 c)
  then show ?case by simp
next
  case (2 cid p h rs c)
  have room: "unat (next_handler_id c) + 1 < 2 ^ 64"
    using "2.prems"(2) by simp
  let ?c1 = "snd (subscribe_to_topic cid p h c)"
  have i1: "ids_issued ?c1"
    by (rule ids_issued_step(1) [OF "2.prems"(1) room])
  have "unat (next_handler_id ?c1) = unat (next_handler_id c) + 1"
    using subscribe_id [of cid p h c] unat_counter [of "next_handler_id c" 1] room by simp
  then have r1: "unat (next_handler_id ?c1) + length rs < 2 ^ 64"
    using "2.prems"(2) by simp
  from "2.IH" [OF refl prod.collapse i1 r1] show ?case
    by (simp add: split_beta)
next
  case (3 cid p rs c)
  have room: "unat (next_handler_id c) + 1 < 2 ^ 64"
    using "3.prems"(2) by simp
  let ?c1 = "snd (snd (advertise_topic cid p c))"
  have i1: "ids_issued ?c1"
    by (rule ids_issued_step(2) [OF "3.prems"(1) room])
  have "unat (next_handler_id ?c1) = unat (next_handler_id c) + 1"
    using advertise_id [of cid p c] unat_counter [of "next_handler_id c" 1] room by simp
  then have r1: "unat (next_handler_id ?c1) + length rs < 2 ^ 64"
    using "3.prems"(2) by simp
  from "3.IH" [OF refl prod.collapse prod.collapse i1 r1] show ?case
    by (simp add: split_beta)
next
  case (4 hid rs c)
  from "4.IH" [OF ids_issued_revoke(1) [OF "4.prems"(1)]] "4.prems"(2) show ?case
    by (simp add: revoke_subscriber_frame)
next
  case (5 hid rs c)
  from "5.IH" [OF ids_issued_revoke(2) [OF "5.prems"(1)]] "5.prems"(2) show ?case
    by (simp add: revoke_publisher_frame)
qed

text \<open>
  C8. Every registration gets the current value of the counter as its handle id, and the
  counter is incremented. Over any sequence of subscribe, advertise and revocation calls
  that does not take the 64-bit counter past its last value, the ids issued are the
  successive values of the counter: strictly increasing in the order of the calls, hence
  pairwise distinct and never issued twice, revocations in between or not; and the
  registrations in the two lists keep pairwise distinct ids below the counter, as they
  have in a new Connector.
\<close>

theorem handle_ids_increase:
  assumes "unat (next_handler_id c) + length rs < 2 ^ 64"
    and "run rs c = (ids, c')"
  shows "fst (subscribe_to_topic cid p h c) = next_handler_id c \<and>
         handle_id (last (subscribers (snd (subscribe_to_topic cid p h c)))) = next_handler_id c \<and>
         fst (snd (advertise_topic cid p c)) = next_handler_id c \<and>
         handle_id (last (publishers (snd (snd (advertise_topic cid p c))))) = next_handler_id c \<and>
         ids = map (\<lambda>k. next_handler_id c + of_nat k) [0..<length ids] \<and>
         next_handler_id c' = next_handler_id c + of_nat (length ids) \<and>
         sorted_wrt (<) ids \<and> distinct ids \<and>
         (\<forall>i \<in> set ids. next_handler_id c \<le> i \<and> i < next_handler_id c') \<and>
         (ids_issued c \<longrightarrow> ids_issued c') \<and>
         ids_issued (Connector n)"
proof -
  from run_ids [OF assms(2)]
  have ids: "ids = map (\<lambda>k. next_handler_id c + of_nat k) [0..<length ids]"
    and nx: "next_handler_id c' = next_handler_id c + of_nat (length ids)"
    and len: "length ids \<le> length rs"
    by simp_all
  from assms(1) len have room: "unat (next_handler_id c) + length ids < 2 ^ 64"
    by simp
  have sorted: "sorted_wrt (<) ids"
    using counter_sorted [OF room] ids by simp
  then have dist: "distinct ids"
    by (simp add: strict_sorted_iff)
  have range: "next_handler_id c \<le> i \<and> i < next_handler_id c'" if "i \<in> set ids" for i
  proof -
    from that ids obtain k where k: "k < length ids" "i = next_handler_id c + of_nat k"
      by (metis (no_types, lifting) add_0 imageE length_map list.set_map set_upt atLeastLessThan_iff diff_zero length_upt)
    from room k have "unat i = unat (next_handler_id c) + k"
      by (simp add: unat_counter)
    moreover from room nx have "unat (next_handler_id c') = unat (next_handler_id c) + length ids"
      by (simp add: unat_counter)
    ultimately show ?thesis
      using k(1) by (simp add: word_le_nat_alt word_less_nat_alt)
  qed
  have inv: "ids_issued c'" if "ids_issued c"
    using run_ids_issued [OF that assms(1)] assms(2) by simp
  show ?thesis
    using subscribe_id [of cid p h c] advertise_id [of cid p c] ids nx sorted dist range inv
      ids_issued_Connector [of n]
    by blast
qed

theorem handle_ids_increase_witness:
  "unat (next_handler_id (Connector quiet_node)) +
     length [Subscribe 1 (topic_params2 ''t'' ''T'') (lasting 0),
             Advertise 2 (topic_params2 ''t'' ''T''),
             RevokeSubscriber 0,
             Subscribe 3 (topic_params2 ''t'' ''T'') (lasting 0)] < 2 ^ 64 \<and>
   fst (run [Subscribe 1 (topic_params2 ''t'' ''T'') (lasting 0),
             Advertise 2 (topic_params2 ''t'' ''T''),
             RevokeSubscriber 0,
             Subscribe 3 (topic_params2 ''t'' ''T'') (lasting 0)] (Connector quiet_node)) = [0, 1, 2] \<and>
   distinct (fst (run [Subscribe 1 (topic_params2 ''t'' ''T'') (lasting 0),
             Advertise 2 (topic_params2 ''t'' ''T''),
             RevokeSubscriber 0,
             Subscribe 3 (topic_params2 ''t'' ''T'') (lasting 0)] (Connector quiet_node))) \<and>
   ids_issued (snd (run [Subscribe 1 (topic_params2 ''t'' ''T'') (lasting 0),
             Advertise 2 (topic_params2 ''t'' ''T''),
             RevokeSubscriber 0,
             Subscribe 3 (topic_params2 ''t'' ''T'') (lasting 0)] (Connector quiet_node)))"
proof -
  have room: "unat (next_handler_id (Connector quiet_node)) +
     length [Subscribe 1 (topic_params2 ''t'' ''T'') (lasting 0),
             Advertise 2 (topic_params2 ''t'' ''T''),
             RevokeSubscriber 0,
             Subscribe 3 (topic_params2 ''t'' ''T'') (lasting 0)] < 2 ^ 64"
    by (simp add: Connector_def)
  have r: "run [Subscribe 1 (topic_params2 ''t'' ''T'') (lasting 0),
             Advertise 2 (topic_params2 ''t'' ''T''),
             RevokeSubscriber 0,
             Subscribe 3 (topic_params2 ''t'' ''T'') (lasting 0)] (Connector quiet_node) =
     (fst (run [Subscribe 1 (topic_params2 ''t'' ''T'') (lasting 0),
             Advertise 2 (topic_params2 ''t'' ''T''),
             RevokeSubscriber 0,
             Subscribe 3 (topic_params2 ''t'' ''T'') (lasting 0)] (Connector quiet_node)),
      snd (run [Subscribe 1 (topic_params2 ''t'' ''T'') (lasting 0),
             Advertise 2 (topic_params2 ''t'' ''T''),
             RevokeSubscriber 0,
             Subscribe 3 (topic_params2 ''t'' ''T'') (lasting 0)] (Connector quiet_node)))"
    by simp
  have ids: "fst (run [Subscribe 1 (topic_params2 ''t'' ''T'') (lasting 0),
             Advertise 2 (topic_params2 ''t'' ''T''),
             RevokeSubscriber 0,
             Subscribe 3 (topic_params2 ''t'' ''T'') (lasting 0)] (Connector quiet_node)) = [0, 1, 2]"
    by (simp add: subscribe_to_topic_def advertise_topic_def Let_def
        create_generic_subscription_def create_generic_publisher_def
        Connector_def quiet_node_def subscribe_qos_def get_publishers_info_by_topic_def
        params_eq_def topic_params2_def copy_sub_def adjust_sub_def copy_pub_def adjust_pub_def
        revoke_subscriber_def reset_sub_def advertise_qos_def QoS_def)
  show ?thesis
    using room ids
      handle_ids_increase [OF room r, of 1 "topic_params2 ''t'' ''T''" "lasting 0" quiet_node]
    by simp
qed

subsection \<open>No validation of the parameters\<close>

text \<open>
  C5, as the specification states it, fails: with the parameters of the default
  constructor, whose topic and type are empty, both functions register the client and
  have the Node Interface create a transport resource.
\<close>

theorem empty_topic_is_registered:
  "topic topic_params0 = '''' \<and> type topic_params0 = '''' \<and>
   length (subscribers (snd (subscribe_to_topic 1 topic_params0 (lasting 0)
     (Connector quiet_node)))) = 1 \<and>
   length (subscriptions (node (snd (subscribe_to_topic 1 topic_params0 (lasting 0)
     (Connector quiet_node))))) = 1 \<and>
   length (publishers (snd (snd (advertise_topic 1 topic_params0 (Connector quiet_node))))) = 1 \<and>
   length (publications (node (snd (snd (advertise_topic 1 topic_params0
     (Connector quiet_node)))))) = 1"
  by (simp add: subscribe_fresh advertise_fresh Connector_def topic_params0_def quiet_node_def)

text \<open>
  C5, amended. Neither function looks at the topic or the type: whatever they are, empty
  or not, the call appends one registration with the given parameters, and when no
  registration has equal parameters it has the Node Interface create the transport
  resource for this topic and type.
\<close>

theorem no_parameter_validation:
  "length (subscribers (snd (subscribe_to_topic cid p h c))) = length (subscribers c) + 1 \<and>
   params (last (subscribers (snd (subscribe_to_topic cid p h c)))) = p \<and>
   (get_subscriber_by_params p (subscribers c) = None \<longrightarrow>
      subscriptions (node (snd (subscribe_to_topic cid p h c))) =
        subscriptions (node c) @
          [\<lparr>sub_topic = topic p, sub_type = type p, sub_qos = subscribe_qos p (node c),
            on_message = Dispatch p, sub_use_count = 1\<rparr>]) \<and>
   length (publishers (snd (snd (advertise_topic cid p c)))) = length (publishers c) + 1 \<and>
   params (last (publishers (snd (snd (advertise_topic cid p c))))) = p \<and>
   (get_publisher_by_params p (publishers c) = None \<longrightarrow>
      publications (node (snd (snd (advertise_topic cid p c)))) =
        publications (node c) @
          [\<lparr>pub_topic = topic p, pub_type = type p, pub_qos = advertise_qos p,
            written = [], pub_use_count = 2\<rparr>])"
proof -
  have s: "length (subscribers (snd (subscribe_to_topic cid p h c))) = length (subscribers c) + 1 \<and>
      params (last (subscribers (snd (subscribe_to_topic cid p h c)))) = p"
    by (cases "get_subscriber_by_params p (subscribers c)")
       (simp_all add: subscribe_fresh subscribe_reuse)
  have a: "length (publishers (snd (snd (advertise_topic cid p c)))) = length (publishers c) + 1 \<and>
      params (last (publishers (snd (snd (advertise_topic cid p c))))) = p"
    by (cases "get_publisher_by_params p (publishers c)")
       (simp_all add: advertise_fresh advertise_reuse)
  show ?thesis
    using s a by (simp add: subscribe_fresh advertise_fresh)
qed

theorem no_parameter_validation_witness:
  "get_subscriber_by_params topic_params0 (subscribers (Connector quiet_node)) = None \<and>
   get_publisher_by_params topic_params0 (publishers (Connector quiet_node)) = None \<and>
   map sub_topic (subscriptions (node (snd (subscribe_to_topic 1 topic_params0 (lasting 0)
     (Connector quiet_node))))) = [''''] \<and>
   map pub_type (publications (node (snd (snd (advertise_topic 1 topic_params0
     (Connector quiet_node)))))) = ['''']"
proof -
  have s: "get_subscriber_by_params topic_params0 (subscribers (Connector quiet_node)) = None"
    by (simp add: Connector_def)
  have a: "get_publisher_by_params topic_params0 (publishers (Connector quiet_node)) = None"
    by (simp add: Connector_def)
  show ?thesis
    using s a no_parameter_validation [of 1 topic_params0 "lasting 0" "Connector quiet_node"]
    by (simp add: Connector_def quiet_node_def topic_params0_def)
qed

subsection \<open>One shared subscription per Topic Parameters\<close>

lemma copy_sub_Some:
  "a < length (subscriptions n) \<Longrightarrow>
     length (subscriptions (copy_sub (Some a) n)) = length (subscriptions n) \<and>
     sub_use_count (subscriptions (copy_sub (Some a) n) ! a) =
       Suc (sub_use_count (subscriptions n ! a)) \<and>
     on_message (subscriptions (copy_sub (Some a) n) ! a) = on_message (subscriptions n ! a)"
  by (simp add: copy_sub_def adjust_sub_def)

lemma subscribe_all_reuse:
  assumes "get_subscriber_by_params p (subscribers c) = Some ms"
    and "subscription ms = Some a" and "a < length (subscriptions (node c))"
  shows "length (subscriptions (node (subscribe_all calls p c))) = length (subscriptions (node c)) \<and>
     sub_use_count (subscriptions (node (subscribe_all calls p c)) ! a) =
       sub_use_count (subscriptions (node c) ! a) + length calls \<and>
     on_message (subscriptions (node (subscribe_all calls p c)) ! a) =
       on_message (subscriptions (node c) ! a) \<and>
     (\<exists>new. subscribers (subscribe_all calls p c) = subscribers c @ new \<and>
        length new = length calls \<and>
        list_all (\<lambda>r. params r = p \<and> subscription r = Some a) new) \<and>
     (\<exists>ts. replay_threads (subscribe_all calls p c) = replay_threads c @ ts \<and>
        length ts =
          (if durability (subscribe_qos p (node c)) = TransientLocal then length calls else 0) \<and>
        list_all (\<lambda>t. replay_params t = p) ts)"
  using assms
proof (induction calls arbitrary: c)
  case Nil
  then show ?case by simp
next
  case (Cons call calls)
  define c1 where "c1 = snd (subscribe_to_topic (fst call) p (snd call) c)"
  have c1: "c1 = c\<lparr>next_handler_id := next_handler_id c + 1,
        node := copy_sub (Some a) (node c),
        replay_threads := replay_threads c @
           (if durability (subscribe_qos p (node c)) = TransientLocal
            then [\<lparr>replay_params = p, replay_qos = subscribe_qos p (node c),
                   replay_handler = snd call\<rparr>]
            else []),
        subscribers := subscribers c @
           [\<lparr>params = p, client_id = ucast (fst call), handle_id = next_handler_id c,
             subscription = Some a, callback = snd call, last_sent = 0\<rparr>]\<rparr>"
    unfolding c1_def subscribe_reuse [OF Cons.prems(1)] by (simp add: Cons.prems(2))
  have m1: "get_subscriber_by_params p (subscribers c1) = Some ms"
    by (simp add: c1 get_subscriber_append Cons.prems(1))
  note cp = copy_sub_Some [OF Cons.prems(3)]
  have a1: "a < length (subscriptions (node c1))"
    using cp Cons.prems(3) by (simp add: c1)
  note ih = Cons.IH [OF m1 Cons.prems(2) a1]
  have q1: "subscribe_qos p (node c1) = subscribe_qos p (node c)"
    by (simp add: c1)
  have sa: "subscribe_all (call # calls) p c = subscribe_all calls p c1"
    by (simp add: c1_def)
  from ih obtain new where new: "subscribers (subscribe_all calls p c1) = subscribers c1 @ new"
    "length new = length calls" "list_all (\<lambda>r. params r = p \<and> subscription r = Some a) new"
    by blast
  from ih obtain ts where ts: "replay_threads (subscribe_all calls p c1) = replay_threads c1 @ ts"
    "length ts = (if durability (subscribe_qos p (node c)) = TransientLocal then length calls else 0)"
    "list_all (\<lambda>t. replay_params t = p) ts"
    unfolding q1 by blast
  have store: "length (subscriptions (node (subscribe_all calls p c1))) =
      length (subscriptions (node c)) \<and>
     sub_use_count (subscriptions (node (subscribe_all calls p c1)) ! a) =
       sub_use_count (subscriptions (node c) ! a) + length (call # calls) \<and>
     on_message (subscriptions (node (subscribe_all calls p c1)) ! a) =
       on_message (subscriptions (node c) ! a)"
    using ih cp by (simp add: c1)
  have subs: "\<exists>new'. subscribers (subscribe_all calls p c1) = subscribers c @ new' \<and>
        length new' = length (call # calls) \<and>
        list_all (\<lambda>r. params r = p \<and> subscription r = Some a) new'"
    using new by (simp add: c1)
  have reps: "\<exists>ts'. replay_threads (subscribe_all calls p c1) = replay_threads c @ ts' \<and>
        length ts' =
          (if durability (subscribe_qos p (node c)) = TransientLocal
           then length (call # calls) else 0) \<and>
        list_all (\<lambda>t. replay_params t = p) ts'"
    using ts by (simp add: c1)
  show ?case
    unfolding sa using store subs reps by blast
qed


lemma subscribe_qos_info:
  "publishers_info n' = publishers_info n \<Longrightarrow> subscribe_qos p n' = subscribe_qos p n"
  by (simp add: subscribe_qos_def get_publishers_info_by_topic_def)

text \<open>
  C1, amended. Take a state with no registration for \<open>p\<close> and a non-empty sequence
  of \<open>subscribe_to_topic\<close> calls, all with \<open>p\<close>. The calls themselves create one
  transport subscription, bound to the dispatch key \<open>p\<close>: the first call creates it,
  every later call reuses it, and after \<open>N\<close> calls the list holds \<open>N\<close> new
  registrations, each sharing that subscription, which \<open>N\<close> shared pointers own. When
  the effective durability is not transient-local nothing else is created; when it is,
  every call after the first starts a replay thread, and each replay thread has the Node
  Interface create one more, temporary, subscription.
\<close>

theorem one_shared_subscription:
  assumes "get_subscriber_by_params p (subscribers c) = None" and "calls \<noteq> []"
  shows "length (subscriptions (node (subscribe_all calls p c))) =
       length (subscriptions (node c)) + 1 \<and>
     on_message (last (subscriptions (node (subscribe_all calls p c)))) = Dispatch p \<and>
     sub_use_count (last (subscriptions (node (subscribe_all calls p c)))) = length calls \<and>
     (\<exists>new. subscribers (subscribe_all calls p c) = subscribers c @ new \<and>
        length new = length calls \<and>
        list_all (\<lambda>r. params r = p \<and> subscription r = Some (length (subscriptions (node c)))) new) \<and>
     (\<exists>ts. replay_threads (subscribe_all calls p c) = replay_threads c @ ts \<and>
        length ts =
          (if durability (subscribe_qos p (node c)) = TransientLocal
           then length calls - 1 else 0) \<and>
        list_all (\<lambda>t. replay_params t = p) ts) \<and>
     length (subscriptions (snd (replay_create t n))) = length (subscriptions n) + 1"
proof -
  from assms(2) obtain call rest where calls: "calls = call # rest"
    by (cases calls) auto
  define a where "a = length (subscriptions (node c))"
  define r where "r = \<lparr>params = p, client_id = ucast (fst call), handle_id = next_handler_id c,
             subscription = Some a, callback = snd call, last_sent = 0\<rparr>"
  define c1 where "c1 = snd (subscribe_to_topic (fst call) p (snd call) c)"
  have c1: "c1 = c\<lparr>next_handler_id := next_handler_id c + 1,
        node := (node c)\<lparr>subscriptions := subscriptions (node c) @
           [\<lparr>sub_topic = topic p, sub_type = type p, sub_qos = subscribe_qos p (node c),
             on_message = Dispatch p, sub_use_count = 1\<rparr>]\<rparr>,
        subscribers := subscribers c @ [r]\<rparr>"
    unfolding c1_def subscribe_fresh [OF assms(1)] by (simp add: r_def a_def)
  have m1: "get_subscriber_by_params p (subscribers c1) = Some r"
    by (simp add: c1 get_subscriber_append assms(1) params_eq_iff r_def)
  have s1: "subscription r = Some a"
    by (simp add: r_def)
  have a1: "a < length (subscriptions (node c1))"
    by (simp add: c1 a_def)
  have q1: "subscribe_qos p (node c1) = subscribe_qos p (node c)"
    by (rule subscribe_qos_info) (simp add: c1)
  have sa: "subscribe_all calls p c = subscribe_all rest p c1"
    by (simp add: calls c1_def)
  note re = subscribe_all_reuse [OF m1 s1 a1, of rest]
  from re obtain new where new: "subscribers (subscribe_all rest p c1) = subscribers c1 @ new"
    "length new = length rest" "list_all (\<lambda>r. params r = p \<and> subscription r = Some a) new"
    by blast
  from re obtain ts where ts: "replay_threads (subscribe_all rest p c1) = replay_threads c1 @ ts"
    "length ts = (if durability (subscribe_qos p (node c)) = TransientLocal then length rest else 0)"
    "list_all (\<lambda>t. replay_params t = p) ts"
    unfolding q1 by blast
  have len: "length (subscriptions (node (subscribe_all rest p c1))) = a + 1"
    using re by (simp add: c1 a_def)
  then have last: "last (subscriptions (node (subscribe_all rest p c1))) =
      subscriptions (node (subscribe_all rest p c1)) ! a"
    by (metis add_diff_cancel_right' last_conv_nth length_0_conv add_is_0 zero_neq_one)
  have store: "on_message (last (subscriptions (node (subscribe_all rest p c1)))) = Dispatch p \<and>
     sub_use_count (last (subscriptions (node (subscribe_all rest p c1)))) = length calls"
    unfolding last using re by (simp add: c1 a_def calls)
  have subs: "\<exists>new'. subscribers (subscribe_all rest p c1) = subscribers c @ new' \<and>
        length new' = length calls \<and>
        list_all (\<lambda>r. params r = p \<and> subscription r = Some a) new'"
    using new by (simp add: c1 calls r_def)
  have reps: "\<exists>ts'. replay_threads (subscribe_all rest p c1) = replay_threads c @ ts' \<and>
        length ts' =
          (if durability (subscribe_qos p (node c)) = TransientLocal
           then length calls - 1 else 0) \<and>
        list_all (\<lambda>t. replay_params t = p) ts'"
    using ts by (simp add: c1 calls)
  have rc: "length (subscriptions (snd (replay_create t n))) = length (subscriptions n) + 1"
    by (simp add: replay_create_def create_generic_subscription_def)
  show ?thesis
    unfolding sa using len store subs reps rc unfolding a_def by blast
qed

text \<open>
  C1, as the specification states it, fails on a topic with a transient-local publisher:
  two calls with equal parameters start one replay thread, and once that thread has run
  its first statement the Node Interface has created two transport subscriptions.
\<close>

theorem latched_topic_second_subscription:
  "length (replay_threads (subscribe_all [(1, lasting 0), (2, lasting 0)]
      (topic_params2 ''map'' ''M'') (Connector latched_node))) = 1 \<and>
   length (subscriptions (snd (replay_create
      (hd (replay_threads (subscribe_all [(1, lasting 0), (2, lasting 0)]
         (topic_params2 ''map'' ''M'') (Connector latched_node))))
      (node (subscribe_all [(1, lasting 0), (2, lasting 0)]
         (topic_params2 ''map'' ''M'') (Connector latched_node)))))) = 2"
  by (simp add: subscribe_to_topic_def Let_def create_generic_subscription_def
        Connector_def latched_node_def subscribe_qos_def get_publishers_info_by_topic_def
        params_eq_def topic_params2_def copy_sub_def adjust_sub_def QoS_def replay_create_def)

theorem one_shared_subscription_witness:
  "get_subscriber_by_params (topic_params2 ''map'' ''M'') (subscribers (Connector latched_node)) = None \<and>
   [(1, lasting 0), (2, lasting 0), (3, lasting 0)] \<noteq> [] \<and>
   length (subscriptions (node (subscribe_all [(1, lasting 0), (2, lasting 0), (3, lasting 0)]
      (topic_params2 ''map'' ''M'') (Connector latched_node)))) = 1 \<and>
   map subscription (subscribers (subscribe_all [(1, lasting 0), (2, lasting 0), (3, lasting 0)]
      (topic_params2 ''map'' ''M'') (Connector latched_node))) = [Some 0, Some 0, Some 0] \<and>
   length (replay_threads (subscribe_all [(1, lasting 0), (2, lasting 0), (3, lasting 0)]
      (topic_params2 ''map'' ''M'') (Connector latched_node))) = 2"
proof -
  have n: "get_subscriber_by_params (topic_params2 ''map'' ''M'')
      (subscribers (Connector latched_node)) = None"
    by (simp add: Connector_def)
  have ne: "[(1 :: 16 word, lasting 0), (2, lasting 0), (3, lasting 0)] \<noteq> []"
    by simp
  have m: "map subscription (subscribers (subscribe_all [(1, lasting 0), (2, lasting 0), (3, lasting 0)]
      (topic_params2 ''map'' ''M'') (Connector latched_node))) = [Some 0, Some 0, Some 0]"
    by (simp add: subscribe_to_topic_def Let_def create_generic_subscription_def
        Connector_def latched_node_def subscribe_qos_def get_publishers_info_by_topic_def
        params_eq_def topic_params2_def copy_sub_def adjust_sub_def QoS_def)
  have q: "durability (subscribe_qos (topic_params2 ''map'' ''M'') (node (Connector latched_node))) =
      TransientLocal"
    by (simp add: Connector_def latched_node_def subscribe_qos_def
        get_publishers_info_by_topic_def QoS_def)
  show ?thesis
    using n m q one_shared_subscription [OF n ne]
    by (auto simp: Connector_def latched_node_def)
qed

subsection \<open>Dispatch and throttling\<close>

lemma not_throttled_iff:
  "\<not> throttled p sub t \<longleftrightarrow> throttle_rate p = 0 \<or> last_sent sub + throttle_rate p < t"
  by (auto simp: throttled_def)

lemma dispatch_loop_Cons:
  "dispatch_loop p m (sub # rest) w =
     (if params_eq (params sub) p \<and> \<not> throttled p sub (now w)
      then if throws (callback sub p m)
           then \<lparr>subs_left = sub # rest, key_left = params_left (callback sub p m),
                 world_left = invoke (callback sub) (Delivered (handle_id sub)) p m w,
                 thrown = True\<rparr>
           else (dispatch_loop (params_left (callback sub p m)) m rest
                   (invoke (callback sub) (Delivered (handle_id sub)) p m w))
                \<lparr>subs_left := sub\<lparr>last_sent := now w + int (elapsed (callback sub p m))\<rparr> #
                   subs_left (dispatch_loop (params_left (callback sub p m)) m rest
                     (invoke (callback sub) (Delivered (handle_id sub)) p m w))\<rparr>
      else (dispatch_loop p m rest w)\<lparr>subs_left := sub # subs_left (dispatch_loop p m rest w)\<rparr>)"
  by (auto simp: not_throttled_iff Let_def invoke_def)

declare dispatch_loop.simps(2) [simp del]

lemma dispatch_loop_append:
  "dispatch_loop p m (xs @ ys) w =
     (if thrown (dispatch_loop p m xs w)
      then (dispatch_loop p m xs w)\<lparr>subs_left := subs_left (dispatch_loop p m xs w) @ ys\<rparr>
      else (dispatch_loop (key_left (dispatch_loop p m xs w)) m ys
              (world_left (dispatch_loop p m xs w)))
           \<lparr>subs_left := subs_left (dispatch_loop p m xs w) @
              subs_left (dispatch_loop (key_left (dispatch_loop p m xs w)) m ys
                (world_left (dispatch_loop p m xs w)))\<rparr>)"
  by (induction xs arbitrary: p w) (simp_all add: dispatch_loop_Cons)

lemma length_dispatch_loop [simp]: "length (subs_left (dispatch_loop p m subs w)) = length subs"
  by (induction subs arbitrary: p w) (simp_all add: dispatch_loop_Cons)

lemma dispatch_loop_single:
  "dispatch_loop p m [sub] w =
     (if params_eq (params sub) p \<and> \<not> throttled p sub (now w)
      then \<lparr>subs_left = [if throws (callback sub p m) then sub
                         else sub\<lparr>last_sent := now w + int (elapsed (callback sub p m))\<rparr>],
            key_left = params_left (callback sub p m),
            world_left = invoke (callback sub) (Delivered (handle_id sub)) p m w,
            thrown = throws (callback sub p m)\<rparr>
      else \<lparr>subs_left = [sub], key_left = p, world_left = w, thrown = False\<rparr>)"
  by (simp add: dispatch_loop_Cons)

lemma loop_at_0 [simp]:
  "loop_at p m subs w 0 = \<lparr>subs_left = [], key_left = p, world_left = w, thrown = False\<rparr>"
  by (simp add: loop_at_def)

lemma loop_at_length: "loop_at p m subs w (length subs) = dispatch_loop p m subs w"
  by (simp add: loop_at_def)

lemma loop_at_Suc:
  assumes "i < length subs"
  shows "loop_at p m subs w (Suc i) =
     (if thrown (loop_at p m subs w i)
      then (loop_at p m subs w i)\<lparr>subs_left := subs_left (loop_at p m subs w i) @ [subs ! i]\<rparr>
      else (dispatch_loop (key_left (loop_at p m subs w i)) m [subs ! i]
              (world_left (loop_at p m subs w i)))
           \<lparr>subs_left := subs_left (loop_at p m subs w i) @
              subs_left (dispatch_loop (key_left (loop_at p m subs w i)) m [subs ! i]
                (world_left (loop_at p m subs w i)))\<rparr>)"
  using assms by (simp add: loop_at_def take_Suc_conv_app_nth dispatch_loop_append)

lemma dispatch_loop_nth:
  assumes "i < length subs"
  shows "subs_left (dispatch_loop p m subs w) ! i =
     (if thrown (loop_at p m subs w i) then subs ! i
      else hd (subs_left (dispatch_loop (key_left (loop_at p m subs w i)) m [subs ! i]
                 (world_left (loop_at p m subs w i)))))"
proof -
  have split: "subs = take i subs @ ([subs ! i] @ drop (Suc i) subs)"
    using assms by (simp add: id_take_nth_drop [symmetric])
  have len: "length (subs_left (loop_at p m subs w i)) = i"
    using assms by (simp add: loop_at_def)
  have "subs_left (dispatch_loop p m (take i subs @ ([subs ! i] @ drop (Suc i) subs)) w) ! i =
     (if thrown (loop_at p m subs w i) then subs ! i
      else hd (subs_left (dispatch_loop (key_left (loop_at p m subs w i)) m [subs ! i]
                 (world_left (loop_at p m subs w i)))))"
    unfolding dispatch_loop_append [of p m "take i subs"] loop_at_def [symmetric]
    using len
    by (auto simp: nth_append dispatch_loop_Cons)
  with split show ?thesis
    by simp
qed

lemma dispatch_step:
  assumes "i < length subs"
  shows "if \<not> thrown (loop_at p m subs w i) \<and>
            params_eq (params (subs ! i)) (key_left (loop_at p m subs w i)) \<and>
            \<not> throttled (key_left (loop_at p m subs w i)) (subs ! i)
                (now (world_left (loop_at p m subs w i)))
         then world_left (loop_at p m subs w (Suc i)) =
                invoke (callback (subs ! i)) (Delivered (handle_id (subs ! i)))
                  (key_left (loop_at p m subs w i)) m (world_left (loop_at p m subs w i)) \<and>
              key_left (loop_at p m subs w (Suc i)) =
                params_left (callback (subs ! i) (key_left (loop_at p m subs w i)) m) \<and>
              thrown (loop_at p m subs w (Suc i)) =
                throws (callback (subs ! i) (key_left (loop_at p m subs w i)) m) \<and>
              subs_left (dispatch_loop p m subs w) ! i =
                (if throws (callback (subs ! i) (key_left (loop_at p m subs w i)) m)
                 then subs ! i
                 else (subs ! i)\<lparr>last_sent := now (world_left (loop_at p m subs w i)) +
                   int (elapsed (callback (subs ! i) (key_left (loop_at p m subs w i)) m))\<rparr>)
         else world_left (loop_at p m subs w (Suc i)) = world_left (loop_at p m subs w i) \<and>
              key_left (loop_at p m subs w (Suc i)) = key_left (loop_at p m subs w i) \<and>
              thrown (loop_at p m subs w (Suc i)) = thrown (loop_at p m subs w i) \<and>
              subs_left (dispatch_loop p m subs w) ! i = subs ! i"
  by (simp add: loop_at_Suc [OF assms] dispatch_loop_nth [OF assms] dispatch_loop_single)

lemma dispatch_loop_well_behaved:
  "list_all (\<lambda>s. returns_unchanged (callback s) p m) subs \<Longrightarrow>
     key_left (dispatch_loop p m subs w) = p \<and> \<not> thrown (dispatch_loop p m subs w)"
  by (induction subs arbitrary: w) (simp_all add: dispatch_loop_Cons returns_unchanged_def)

lemma loop_at_well_behaved:
  assumes "list_all (\<lambda>s. returns_unchanged (callback s) p m) subs"
  shows "key_left (loop_at p m subs w i) = p \<and> \<not> thrown (loop_at p m subs w i)"
proof -
  from assms have "list_all (\<lambda>s. returns_unchanged (callback s) p m) (take i subs)"
    by (auto simp: list_all_iff dest: in_set_takeD)
  then show ?thesis
    unfolding loop_at_def by (rule dispatch_loop_well_behaved)
qed

lemma topic_message_callback_eq:
  "topic_message_callback p m (c, w) =
     ((c\<lparr>subscribers := subs_left (dispatch_loop p m (subscribers c) w)\<rparr>,
       world_left (dispatch_loop p m (subscribers c) w)),
      key_left (dispatch_loop p m (subscribers c) w),
      thrown (dispatch_loop p m (subscribers c) w))"
  by (simp add: topic_message_callback_def Let_def)

lemma now_invoke: "now (invoke cb tag p m w) = now w + int (elapsed (cb p m))"
  by (simp add: invoke_def)

text \<open>
  What a callback does to the key reaches the registrations after it. Two registrations
  have the same Topic Parameters; a message arrives with these parameters as the key. When
  the callback of the first overwrites the params it is handed, the second registration
  no longer matches and is not called, and the key stays overwritten for the messages
  that follow. When the callback of the first throws, the loop is left: the second
  registration is not called and no \<open>last_sent\<close> is written.
\<close>

lemma two_registrations:
  "subscribers (snd (run [Subscribe 1 (topic_params2 ''t'' ''T'') h1,
       Subscribe 2 (topic_params2 ''t'' ''T'') h2] (Connector n))) =
     [\<lparr>params = topic_params2 ''t'' ''T'', client_id = 1, handle_id = 0,
       subscription = Some (length (subscriptions n)), callback = h1, last_sent = 0\<rparr>,
      \<lparr>params = topic_params2 ''t'' ''T'', client_id = 2, handle_id = 1,
       subscription = Some (length (subscriptions n)), callback = h2, last_sent = 0\<rparr>]"
proof -
  define P where "P = topic_params2 ''t'' ''T''"
  define C where "C = snd (subscribe_to_topic 1 P h1 (Connector n))"
  have s1: "subscribers C = [\<lparr>params = P, client_id = 1, handle_id = 0,
       subscription = Some (length (subscriptions n)), callback = h1, last_sent = 0\<rparr>]"
    and n1: "next_handler_id C = 1"
    unfolding C_def by (simp_all add: subscribe_fresh Connector_def)
  have m: "get_subscriber_by_params P (subscribers C) =
      Some \<lparr>params = P, client_id = 1, handle_id = 0,
       subscription = Some (length (subscriptions n)), callback = h1, last_sent = 0\<rparr>"
    by (simp add: s1 params_eq_iff)
  have "subscribers (snd (subscribe_to_topic 2 P h2 C)) =
     [\<lparr>params = P, client_id = 1, handle_id = 0,
       subscription = Some (length (subscriptions n)), callback = h1, last_sent = 0\<rparr>,
      \<lparr>params = P, client_id = 2, handle_id = 1,
       subscription = Some (length (subscriptions n)), callback = h2, last_sent = 0\<rparr>]"
    unfolding subscribe_reuse [OF m] by (simp add: s1 n1)
  then have "subscribers (snd (run [Subscribe 1 P h1, Subscribe 2 P h2] (Connector n))) =
     [\<lparr>params = P, client_id = 1, handle_id = 0,
       subscription = Some (length (subscriptions n)), callback = h1, last_sent = 0\<rparr>,
      \<lparr>params = P, client_id = 2, handle_id = 1,
       subscription = Some (length (subscriptions n)), callback = h2, last_sent = 0\<rparr>]"
    by (simp add: split_beta C_def)
  then show ?thesis
    unfolding P_def .
qed

lemma rewritten_key_skips_registration:
  "invocations (snd (fst (topic_message_callback (topic_params2 ''t'' ''T'') []
     (snd (run [Subscribe 1 (topic_params2 ''t'' ''T'') (rewriting (topic_params2 ''u'' ''T'')),
                Subscribe 2 (topic_params2 ''t'' ''T'') (lasting 0)] (Connector quiet_node)),
      \<lparr>now = 5, invocations = []\<rparr>)))) =
     [Delivered 0 (topic_params2 ''t'' ''T'') [] 5 True] \<and>
   snd (topic_message_callback (topic_params2 ''t'' ''T'') []
     (snd (run [Subscribe 1 (topic_params2 ''t'' ''T'') (rewriting (topic_params2 ''u'' ''T'')),
                Subscribe 2 (topic_params2 ''t'' ''T'') (lasting 0)] (Connector quiet_node)),
      \<lparr>now = 5, invocations = []\<rparr>)) = (topic_params2 ''u'' ''T'', False)"
  unfolding topic_message_callback_def Let_def fst_conv snd_conv two_registrations
  by (simp add: dispatch_loop_Cons params_eq_iff throttled_def rewriting_def lasting_def invoke_def topic_params2_def)

lemma thrown_exception_skips_registration:
  "invocations (snd (fst (topic_message_callback (topic_params2 ''t'' ''T'') []
     (snd (run [Subscribe 1 (topic_params2 ''t'' ''T'') throwing,
                Subscribe 2 (topic_params2 ''t'' ''T'') (lasting 0)] (Connector quiet_node)),
      \<lparr>now = 5, invocations = []\<rparr>)))) =
     [Delivered 0 (topic_params2 ''t'' ''T'') [] 5 False] \<and>
   map last_sent (subscribers (fst (fst (topic_message_callback (topic_params2 ''t'' ''T'') []
     (snd (run [Subscribe 1 (topic_params2 ''t'' ''T'') throwing,
                Subscribe 2 (topic_params2 ''t'' ''T'') (lasting 0)] (Connector quiet_node)),
      \<lparr>now = 5, invocations = []\<rparr>))))) = [0, 0] \<and>
   snd (topic_message_callback (topic_params2 ''t'' ''T'') []
     (snd (run [Subscribe 1 (topic_params2 ''t'' ''T'') throwing,
                Subscribe 2 (topic_params2 ''t'' ''T'') (lasting 0)] (Connector quiet_node)),
      \<lparr>now = 5, invocations = []\<rparr>)) = (topic_params2 ''t'' ''T'', True)"
  unfolding topic_message_callback_def Let_def fst_conv snd_conv two_registrations
  by (simp add: dispatch_loop_Cons params_eq_iff throttled_def throwing_def lasting_def invoke_def topic_params2_def)

subsection \<open>Pacing of the calls made by dispatch\<close>

lemma returned_at_append [simp]:
  "returned_at h (xs @ ys) = returned_at h xs @ returned_at h ys"
  by (simp add: returned_at_def)

lemma returned_at_Nil [simp]: "returned_at h [] = []"
  by (simp add: returned_at_def)

lemma returned_at_single [simp]: "returned_at h [e] = returned_time h e"
  by (simp add: returned_at_def)

lemma spaced_Nil [simp]: "spaced []"
  by (simp add: spaced_def)

lemma spaced_snoc: "spaced (log @ [e]) \<longleftrightarrow> spaced log \<and> in_pace log e"
proof -
  have "in_pace (take j (log @ [e])) ((log @ [e]) ! j) = in_pace (take j log) (log ! j)"
    if "j < length log" for j
    using that by (simp add: nth_append)
  then have "list_all (\<lambda>j. in_pace (take j (log @ [e])) ((log @ [e]) ! j)) [0 ..< length log] =
      list_all (\<lambda>j. in_pace (take j log) (log ! j)) [0 ..< length log]"
    by (simp add: list_all_iff)
  then show ?thesis
    by (auto simp: spaced_def)
qed

lemma returned_at_fresh:
  "list_all (issued_before x) log \<Longrightarrow> returned_at x log = []"
proof (induction log)
  case Nil
  then show ?case by simp
next
  case (Cons e log)
  then show ?case
    by (cases e) (auto simp: returned_at_def)
qed

lemma issued_before_mono:
  "x \<le> y \<Longrightarrow> list_all (issued_before x) log \<Longrightarrow> list_all (issued_before y) log"
proof (induction log)
  case Nil
  then show ?case by simp
next
  case (Cons e log)
  then show ?case
    by (cases e) auto
qed

text \<open>One call made by the loop keeps the log spaced.\<close>

lemma delivery_in_pace:
  assumes "0 < throttle_rate (params sub) \<longrightarrow>
      (\<forall>t1 \<in> set (returned_at (handle_id sub) log). t1 \<le> last_sent sub)"
    and "params_eq (params sub) p" and "\<not> throttled p sub t"
  shows "in_pace log (Delivered (handle_id sub) p m t ok)"
proof (cases "0 < throttle_rate p")
  case False
  then show ?thesis by simp
next
  case True
  from assms(2) have "throttle_rate (params sub) = throttle_rate p"
    by (simp add: params_eq_def)
  with True assms(1) have le: "\<forall>t1 \<in> set (returned_at (handle_id sub) log). t1 \<le> last_sent sub"
    by simp
  from True assms(3) have "last_sent sub + throttle_rate p < t"
    by (simp add: not_throttled_iff)
  with le show ?thesis
    by (auto simp: list_all_iff)
qed

lemma dispatch_loop_pacing:
  assumes "distinct (map handle_id subs)"
    and "\<forall>r \<in> set subs. 0 < throttle_rate (params r) \<longrightarrow>
      (\<forall>t1 \<in> set (returned_at (handle_id r) (invocations w)). t1 \<le> last_sent r)"
    and "spaced (invocations w)"
  shows "map handle_id (subs_left (dispatch_loop p m subs w)) = map handle_id subs \<and>
    (\<forall>r \<in> set (subs_left (dispatch_loop p m subs w)). 0 < throttle_rate (params r) \<longrightarrow>
      (\<forall>t1 \<in> set (returned_at (handle_id r)
          (invocations (world_left (dispatch_loop p m subs w)))). t1 \<le> last_sent r)) \<and>
    spaced (invocations (world_left (dispatch_loop p m subs w))) \<and>
    (\<forall>h. h \<notin> handle_id ` set subs \<longrightarrow>
       returned_at h (invocations (world_left (dispatch_loop p m subs w))) =
       returned_at h (invocations w)) \<and>
    (\<forall>x. list_all (issued_before x) (invocations w) \<and> (\<forall>r \<in> set subs. handle_id r < x) \<longrightarrow>
       list_all (issued_before x) (invocations (world_left (dispatch_loop p m subs w))))"
  using assms
proof (induction subs arbitrary: p w)
  case Nil
  then show ?case by simp
next
  case (Cons sub rest)
  have d: "distinct (map handle_id rest)" and fresh: "handle_id sub \<notin> handle_id ` set rest"
    using Cons.prems(1) by auto
  have head: "0 < throttle_rate (params sub) \<longrightarrow>
      (\<forall>t1 \<in> set (returned_at (handle_id sub) (invocations w)). t1 \<le> last_sent sub)"
    and tail: "\<forall>r \<in> set rest. 0 < throttle_rate (params r) \<longrightarrow>
      (\<forall>t1 \<in> set (returned_at (handle_id r) (invocations w)). t1 \<le> last_sent r)"
    using Cons.prems(2) by auto
  show ?case
  proof (cases "params_eq (params sub) p \<and> \<not> throttled p sub (now w)")
    case False
    note ih = Cons.IH [OF d tail Cons.prems(3), of p]
    from ih fresh have "returned_at (handle_id sub)
        (invocations (world_left (dispatch_loop p m rest w))) =
        returned_at (handle_id sub) (invocations w)"
      by blast
    with head ih False show ?thesis
      by (auto simp: dispatch_loop_Cons)
  next
    case True
    define e where "e = Delivered (handle_id sub) p m (now w) (\<not> throws (callback sub p m))"
    define w1 where "w1 = invoke (callback sub) (Delivered (handle_id sub)) p m w"
    have log1: "invocations w1 = invocations w @ [e]"
      by (simp add: w1_def e_def invoke_def)
    have pace: "in_pace (invocations w) e"
      unfolding e_def using head True by (intro delivery_in_pace) auto
    have sp1: "spaced (invocations w1)"
      using Cons.prems(3) pace by (simp add: log1 spaced_snoc)
    have other: "returned_at h (invocations w1) = returned_at h (invocations w)"
      if "h \<noteq> handle_id sub" for h
      using that by (auto simp: log1 e_def)
    have tail1: "\<forall>r \<in> set rest. 0 < throttle_rate (params r) \<longrightarrow>
        (\<forall>t1 \<in> set (returned_at (handle_id r) (invocations w1)). t1 \<le> last_sent r)"
    proof (intro ballI impI)
      fix r t1
      assume r: "r \<in> set rest" and pos: "0 < throttle_rate (params r)"
        and t1: "t1 \<in> set (returned_at (handle_id r) (invocations w1))"
      from r fresh have "handle_id r \<noteq> handle_id sub"
        by (metis imageI)
      then have "returned_at (handle_id r) (invocations w1) =
          returned_at (handle_id r) (invocations w)"
        by (rule other)
      with tail r pos t1 show "t1 \<le> last_sent r"
        by simp
    qed
    have ib1: "list_all (issued_before x) (invocations w1)"
      if "list_all (issued_before x) (invocations w)" "handle_id sub < x" for x
      using that by (simp add: log1 e_def)
    show ?thesis
    proof (cases "throws (callback sub p m)")
      case thr: True
      have same: "returned_at h (invocations w1) = returned_at h (invocations w)" for h
        using thr by (simp add: log1 e_def)
      have res: "dispatch_loop p m (sub # rest) w =
          \<lparr>subs_left = sub # rest, key_left = params_left (callback sub p m),
            world_left = w1, thrown = True\<rparr>"
        using True thr by (simp add: dispatch_loop_Cons w1_def)
      show ?thesis
        unfolding res using head tail sp1 ib1 by (auto simp: same)
    next
      case ret: False
      define p1 where "p1 = params_left (callback sub p m)"
      define sub' where "sub' = sub\<lparr>last_sent := now w + int (elapsed (callback sub p m))\<rparr>"
      have res: "dispatch_loop p m (sub # rest) w =
          (dispatch_loop p1 m rest w1)\<lparr>subs_left := sub' # subs_left (dispatch_loop p1 m rest w1)\<rparr>"
        using True ret by (simp add: dispatch_loop_Cons w1_def p1_def sub'_def)
      note ih = Cons.IH [OF d tail1 sp1, of p1]
      from ih fresh have keep: "returned_at (handle_id sub)
          (invocations (world_left (dispatch_loop p1 m rest w1))) =
          returned_at (handle_id sub) (invocations w1)"
        by blast
      have r1: "returned_at (handle_id sub) (invocations w1) =
          returned_at (handle_id sub) (invocations w) @ [now w]"
        using ret by (simp add: log1 e_def)
      have head': "0 < throttle_rate (params sub') \<longrightarrow>
          (\<forall>t1 \<in> set (returned_at (handle_id sub')
             (invocations (world_left (dispatch_loop p1 m rest w1)))). t1 \<le> last_sent sub')"
      proof
        assume pos: "0 < throttle_rate (params sub')"
        from True have eq: "throttle_rate (params sub) = throttle_rate p"
          by (simp add: params_eq_def)
        with pos True have lt: "last_sent sub + throttle_rate p < now w"
          by (simp add: sub'_def not_throttled_iff)
        from pos head have "\<forall>t1 \<in> set (returned_at (handle_id sub) (invocations w)).
            t1 \<le> last_sent sub"
          by (simp add: sub'_def)
        with lt pos eq show "\<forall>t1 \<in> set (returned_at (handle_id sub')
             (invocations (world_left (dispatch_loop p1 m rest w1)))). t1 \<le> last_sent sub'"
          by (auto simp: sub'_def keep r1)
      qed
      have ids: "handle_id sub' = handle_id sub"
        by (simp add: sub'_def)
      have out: "\<forall>h. h \<notin> handle_id ` set (sub # rest) \<longrightarrow>
          returned_at h (invocations (world_left (dispatch_loop p1 m rest w1))) =
          returned_at h (invocations w)"
        using ih other by auto
      have ib: "\<forall>x. list_all (issued_before x) (invocations w) \<and>
          (\<forall>r \<in> set (sub # rest). handle_id r < x) \<longrightarrow>
          list_all (issued_before x) (invocations (world_left (dispatch_loop p1 m rest w1)))"
        using ih ib1 by auto
      show ?thesis
        unfolding res using ih head' ids out ib by simp
    qed
  qed
qed

lemma pacing_inv_iff:
  "pacing_inv (c, w) \<longleftrightarrow>
     ids_issued c \<and>
     (\<forall>r \<in> set (subscribers c). 0 < throttle_rate (params r) \<longrightarrow>
        (\<forall>t1 \<in> set (returned_at (handle_id r) (invocations w)). t1 \<le> last_sent r)) \<and>
     list_all (issued_before (next_handler_id c)) (invocations w) \<and>
     spaced (invocations w)"
  by (auto simp: pacing_inv_def list_all_iff)

lemma pacing_inv_Connector: "pacing_inv (Connector n, \<lparr>now = t0, invocations = []\<rparr>)"
  by (simp add: pacing_inv_iff ids_issued_def Connector_def)

lemma pacing_inv_inbound:
  assumes "pacing_inv (c, w)"
  shows "pacing_inv (fst (topic_message_callback k m (c, w)))"
proof -
  from assms have ii: "ids_issued c"
    and ls: "\<forall>r \<in> set (subscribers c). 0 < throttle_rate (params r) \<longrightarrow>
        (\<forall>t1 \<in> set (returned_at (handle_id r) (invocations w)). t1 \<le> last_sent r)"
    and ib: "list_all (issued_before (next_handler_id c)) (invocations w)"
    and sp: "spaced (invocations w)"
    by (simp_all add: pacing_inv_iff)
  from ii have d: "distinct (map handle_id (subscribers c))"
    and below: "\<forall>r \<in> set (subscribers c). handle_id r < next_handler_id c"
    by (simp_all add: ids_issued_def list_all_iff)
  note lp = dispatch_loop_pacing [OF d ls sp, of k m]
  let ?R = "dispatch_loop k m (subscribers c) w"
  have ids: "map handle_id (subs_left ?R) = map handle_id (subscribers c)"
    using lp by blast
  have "list_all (\<lambda>h. h < next_handler_id c) (map handle_id (subscribers c))"
    using below by (simp add: list_all_iff)
  then have "list_all (\<lambda>h. h < next_handler_id c) (map handle_id (subs_left ?R))"
    by (simp only: ids)
  then have below': "\<forall>r \<in> set (subs_left ?R). handle_id r < next_handler_id c"
    by (simp add: list_all_iff)
  have ii': "ids_issued (c\<lparr>subscribers := subs_left ?R\<rparr>)"
    using ii ids below' by (simp add: ids_issued_def list_all_iff)
  have ib': "list_all (issued_before (next_handler_id c)) (invocations (world_left ?R))"
    using lp ib below by blast
  show ?thesis
    using lp ii' ib' by (simp add: topic_message_callback_eq pacing_inv_iff)
qed

lemma oneshot_callback_log:
  "returned_at h (invocations (seen (oneshot_callback t ms s))) =
     returned_at h (invocations (seen s)) \<and>
   (spaced (invocations (seen s)) \<longrightarrow> spaced (invocations (seen (oneshot_callback t ms s)))) \<and>
   (list_all (issued_before x) (invocations (seen s)) \<longrightarrow>
      list_all (issued_before x) (invocations (seen (oneshot_callback t ms s))))"
proof (induction ms arbitrary: s)
  case Nil
  then show ?case by simp
next
  case (Cons m ms)
  show ?case
    using Cons.IH [of "\<lparr>bound = params_left (replay_handler t (bound s) m),
        fired = (fired s \<or> \<not> throws (replay_handler t (bound s) m)),
        seen = invoke (replay_handler t) Replayed (bound s) m (seen s)\<rparr>"]
    by (simp add: invoke_def spaced_snoc)
qed

lemma pacing_inv_replay:
  assumes "pacing_inv (c, w)"
  shows "pacing_inv (c, seen (oneshot_callback t ms \<lparr>bound = k, fired = False, seen = w\<rparr>))"
  using assms oneshot_callback_log [of _ t ms "\<lparr>bound = k, fired = False, seen = w\<rparr>"]
  by (simp add: pacing_inv_iff)

lemma pacing_inv_elapse:
  "pacing_inv (c, w) \<Longrightarrow> pacing_inv (c, w\<lparr>now := now w + int d\<rparr>)"
  by (simp add: pacing_inv_iff)

lemma subscribers_advertise:
  "subscribers (snd (snd (advertise_topic cid p c))) = subscribers c"
  by (cases "get_publisher_by_params p (publishers c)")
     (simp_all add: advertise_fresh advertise_reuse)

lemma subscribers_subscribe:
  "\<exists>a. subscribers (snd (subscribe_to_topic cid p h c)) =
     subscribers c @ [\<lparr>params = p, client_id = ucast cid, handle_id = next_handler_id c,
        subscription = a, callback = h, last_sent = 0\<rparr>]"
  by (cases "get_subscriber_by_params p (subscribers c)")
     (simp_all add: subscribe_fresh subscribe_reuse)

lemma pacing_inv_call:
  assumes "pacing_inv (c, w)" and "unat (next_handler_id c) + 1 < 2 ^ 64"
  shows "pacing_inv (snd (run [r] c), w)"
proof -
  from assms(1) have ii: "ids_issued c"
    and ls: "\<forall>r \<in> set (subscribers c). 0 < throttle_rate (params r) \<longrightarrow>
        (\<forall>t1 \<in> set (returned_at (handle_id r) (invocations w)). t1 \<le> last_sent r)"
    and ib: "list_all (issued_before (next_handler_id c)) (invocations w)"
    and sp: "spaced (invocations w)"
    by (simp_all add: pacing_inv_iff)
  have up: "list_all (issued_before (next_handler_id c + 1)) (invocations w)"
    using issued_before_mono [OF _ ib, of "next_handler_id c + 1"] counter_step [OF assms(2)]
    by simp
  have new: "returned_at (next_handler_id c) (invocations w) = []"
    using ib by (rule returned_at_fresh)
  show ?thesis
  proof (cases r)
    case (Subscribe cid p h)
    let ?c = "snd (subscribe_to_topic cid p h c)"
    obtain a where subs: "subscribers ?c =
        subscribers c @ [\<lparr>params = p, client_id = ucast cid, handle_id = next_handler_id c,
          subscription = a, callback = h, last_sent = 0\<rparr>]"
      using subscribers_subscribe [of cid p h c] by blast
    have a: "ids_issued ?c"
      by (rule ids_issued_step(1) [OF ii assms(2)])
    have b: "\<forall>r \<in> set (subscribers ?c). 0 < throttle_rate (params r) \<longrightarrow>
        (\<forall>t1 \<in> set (returned_at (handle_id r) (invocations w)). t1 \<le> last_sent r)"
      unfolding subs using ls new by simp
    have nx: "next_handler_id ?c = next_handler_id c + 1"
      using subscribe_id [of cid p h c] by blast
    have "pacing_inv (?c, w)"
      unfolding pacing_inv_iff nx by (intro conjI a b up sp)
    with Subscribe show ?thesis
      by (simp add: split_beta)
  next
    case (Advertise cid p)
    let ?c = "snd (snd (advertise_topic cid p c))"
    have a: "ids_issued ?c"
      by (rule ids_issued_step(2) [OF ii assms(2)])
    have nx: "next_handler_id ?c = next_handler_id c + 1"
      using advertise_id [of cid p c] by blast
    have "pacing_inv (?c, w)"
      unfolding pacing_inv_iff nx subscribers_advertise by (intro conjI a ls up sp)
    with Advertise show ?thesis
      by (simp add: split_beta)
  next
    case (RevokeSubscriber hid)
    let ?c = "revoke_subscriber hid c"
    have a: "ids_issued ?c"
      by (rule ids_issued_revoke(1) [OF ii])
    have b: "\<forall>r \<in> set (subscribers ?c). 0 < throttle_rate (params r) \<longrightarrow>
        (\<forall>t1 \<in> set (returned_at (handle_id r) (invocations w)). t1 \<le> last_sent r)"
      unfolding subscribers_revoke_subscriber
      using ls erase_handle_subset [of hid "subscribers c"] by blast
    have nx: "next_handler_id ?c = next_handler_id c"
      by (simp add: revoke_subscriber_frame)
    have "pacing_inv (?c, w)"
      unfolding pacing_inv_iff nx by (intro conjI a b ib sp)
    with RevokeSubscriber show ?thesis
      by simp
  next
    case (RevokePublisher hid)
    let ?c = "revoke_publisher hid c"
    have a: "ids_issued ?c"
      by (rule ids_issued_revoke(2) [OF ii])
    have nx: "next_handler_id ?c = next_handler_id c" and sb: "subscribers ?c = subscribers c"
      by (simp_all add: revoke_publisher_frame)
    have "pacing_inv (?c, w)"
      unfolding pacing_inv_iff nx sb by (intro conjI a ls ib sp)
    with RevokePublisher show ?thesis
      by simp
  qed
qed

lemma next_after_call:
  assumes "unat (next_handler_id c) + 1 < 2 ^ 64"
  shows "unat (next_handler_id (snd (run [r] c))) \<le> unat (next_handler_id c) + 1"
proof (cases r)
  case (Subscribe cid p h)
  then show ?thesis
    using subscribe_id [of cid p h c] unat_counter [of "next_handler_id c" 1] assms
    by (simp add: split_beta)
next
  case (Advertise cid p)
  then show ?thesis
    using advertise_id [of cid p c] unat_counter [of "next_handler_id c" 1] assms
    by (simp add: split_beta)
next
  case (RevokeSubscriber hid)
  then show ?thesis by (simp add: revoke_subscriber_frame)
next
  case (RevokePublisher hid)
  then show ?thesis by (simp add: revoke_publisher_frame)
qed

lemma pacing_inv_step:
  assumes "pacing_inv cw" and "unat (next_handler_id (fst cw)) + 1 < 2 ^ 64"
  shows "pacing_inv (step e cw) \<and>
    unat (next_handler_id (fst (step e cw))) \<le> unat (next_handler_id (fst cw)) + 1"
proof (cases e)
  case (Call r)
  then show ?thesis
    using pacing_inv_call [of "fst cw" "snd cw" r] next_after_call [of "fst cw" r] assms
    by simp
next
  case (Inbound k m)
  then show ?thesis
    using pacing_inv_inbound [of "fst cw" "snd cw" k m] assms(1)
    by (simp add: topic_message_callback_def Let_def)
next
  case (Elapse d)
  then show ?thesis
    using pacing_inv_elapse [of "fst cw" "snd cw" d] assms(1) by simp
next
  case (Replay t k ms)
  then show ?thesis
    using pacing_inv_replay [of "fst cw" "snd cw" t ms k] assms(1) by simp
qed

lemma pacing_inv_execute:
  "pacing_inv cw \<Longrightarrow> unat (next_handler_id (fst cw)) + length evs < 2 ^ 64 \<Longrightarrow>
     pacing_inv (execute evs cw)"
proof (induction evs arbitrary: cw)
  case Nil
  then show ?case by simp
next
  case (Cons e evs)
  have room: "unat (next_handler_id (fst cw)) + 1 < 2 ^ 64"
    using Cons.prems(2) by simp
  note st = pacing_inv_step [OF Cons.prems(1) room, of e]
  have "unat (next_handler_id (fst (step e cw))) + length evs < 2 ^ 64"
    using st Cons.prems(2) by simp
  with Cons.IH [of "step e cw"] st show ?case
    by simp
qed

lemma spaced_nth:
  assumes "spaced log" and "a < b" and "b < length log"
    and "log ! a = Delivered h k1 m1 t1 True" and "log ! b = Delivered h k2 m2 t2 ok"
    and "0 < throttle_rate k2"
  shows "t1 + throttle_rate k2 < t2"
proof -
  from assms(1,3) have "in_pace (take b log) (log ! b)"
    by (simp add: spaced_def list_all_iff)
  with assms(5,6) have all: "\<forall>t \<in> set (returned_at h (take b log)). t + throttle_rate k2 < t2"
    by (simp add: list_all_iff)
  have "take b log ! a = log ! a"
    using assms(2) by simp
  moreover have "a < length (take b log)"
    using assms(2,3) by simp
  ultimately have "Delivered h k1 m1 t1 True \<in> set (take b log)"
    using assms(4) by (metis nth_mem)
  then have "t1 \<in> set (returned_at h (take b log))"
    by (force simp: returned_at_def)
  with all show ?thesis
    by blast
qed

lemma execute_spaced:
  assumes "length evs < 2 ^ 64"
  shows "spaced (invocations (snd (execute evs (Connector n, \<lparr>now = t0, invocations = []\<rparr>))))"
proof -
  have "unat (next_handler_id (fst (Connector n, \<lparr>now = t0, invocations = []\<rparr>))) + length evs
      < 2 ^ 64"
    using assms by (simp add: Connector_def)
  from pacing_inv_execute [OF pacing_inv_Connector this]
  show ?thesis
    by (simp add: pacing_inv_def)
qed

text \<open>
  The calls made by a replay thread are outside the pacing: the thread calls the handler
  without reading \<open>last_sent\<close> or the clock. Here the handler is called by dispatch at
  the reading 101 and once more by a replay thread at the same reading, with a rate
  of 100.
\<close>

lemma replay_call_not_throttled:
  "invocations (snd (execute
     [Call (Subscribe 1 (topic_params5 ''t'' ''T'' 10 ''none'' 100) (lasting 0)),
      Elapse 101,
      Inbound (topic_params5 ''t'' ''T'' 10 ''none'' 100) [],
      Replay \<lparr>replay_params = topic_params5 ''t'' ''T'' 10 ''none'' 100,
              replay_qos = QoS 10, replay_handler = lasting 0\<rparr>
        (topic_params5 ''t'' ''T'' 10 ''none'' 100) [[]]]
     (Connector quiet_node, \<lparr>now = 0, invocations = []\<rparr>))) =
   [Delivered 0 (topic_params5 ''t'' ''T'' 10 ''none'' 100) [] 101 True,
    Replayed (topic_params5 ''t'' ''T'' 10 ''none'' 100) [] 101 True]"
proof -
  define P where "P = topic_params5 ''t'' ''T'' 10 ''none'' 100"
  define C where "C = snd (subscribe_to_topic 1 P (lasting 0) (Connector quiet_node))"
  have rate: "throttle_rate P = 100"
    by (simp add: P_def topic_params5_def)
  have subs: "subscribers C =
      [\<lparr>params = P, client_id = 1, handle_id = 0, subscription = Some 0,
        callback = lasting 0, last_sent = 0\<rparr>]"
    unfolding C_def by (simp add: subscribe_fresh Connector_def quiet_node_def)
  have "execute [Call (Subscribe 1 P (lasting 0)), Elapse 101, Inbound P [],
        Replay \<lparr>replay_params = P, replay_qos = QoS 10, replay_handler = lasting 0\<rparr> P [[]]]
        (Connector quiet_node, \<lparr>now = 0, invocations = []\<rparr>) =
      execute [Elapse 101, Inbound P [],
        Replay \<lparr>replay_params = P, replay_qos = QoS 10, replay_handler = lasting 0\<rparr> P [[]]]
        (C, \<lparr>now = 0, invocations = []\<rparr>)"
    unfolding C_def by (simp add: split_beta)
  then have "invocations (snd (execute [Call (Subscribe 1 P (lasting 0)), Elapse 101, Inbound P [],
        Replay \<lparr>replay_params = P, replay_qos = QoS 10, replay_handler = lasting 0\<rparr> P [[]]]
        (Connector quiet_node, \<lparr>now = 0, invocations = []\<rparr>))) =
      [Delivered 0 P [] 101 True, Replayed P [] 101 True]"
    by (simp add: topic_message_callback_eq subs dispatch_loop_Cons params_eq_iff
        throttled_def rate invoke_def lasting_def)
  then show ?thesis
    unfolding P_def .
qed

text \<open>
  C2, amended. Let the loop of \<open>topic_message_callback\<close> have reached the
  registration at position \<open>i\<close>, with the key \<open>k\<close> as the callbacks called before
  have left it and the clock at the reading \<open>t\<close>. The callback of that registration is
  called, with \<open>k\<close> and the message, exactly when no callback before it has thrown, its
  parameters equal \<open>k\<close>, and it is not throttled, where throttled means that the rate
  of \<open>k\<close> is not zero and \<open>t \<le> lastSent + throttleRate\<close>: at the reading
  \<open>lastSent + throttleRate\<close> itself the message is still held back. Otherwise the
  registration, the key and the world are left as they are. A callback that is called
  and returns leaves \<open>lastSent\<close> at the reading taken after it; one that throws leaves
  the registration unchanged and ends the loop. When every callback of the list returns
  and leaves the dispatch key \<open>p\<close> as it is, \<open>k\<close> is \<open>p\<close> and no exception is
  pending at any position, so the condition is the one on \<open>p\<close> alone. Across any run
  of a Connector from its construction (calls, revocations, messages with any key, time
  passing, rounds of any replay thread; fewer than \<open>2^64\<close> events, so that no handle id
  is issued twice), a call made by dispatch for a registration with a key of rate
  \<open>T > 0\<close> starts more than \<open>T\<close> after the start of every earlier call made by
  dispatch for the same registration that has returned. Calls made by a replay thread
  and calls that threw are not paced.
\<close>

theorem throttle_condition:
  assumes "i < length (subscribers c)"
  shows "loop_at p m (subscribers c) w 0 =
           \<lparr>subs_left = [], key_left = p, world_left = w, thrown = False\<rparr> \<and>
         (if \<not> thrown (loop_at p m (subscribers c) w i) \<and>
             params_eq (params (subscribers c ! i)) (key_left (loop_at p m (subscribers c) w i)) \<and>
             \<not> throttled (key_left (loop_at p m (subscribers c) w i)) (subscribers c ! i)
                 (now (world_left (loop_at p m (subscribers c) w i)))
          then world_left (loop_at p m (subscribers c) w (Suc i)) =
                 invoke (callback (subscribers c ! i)) (Delivered (handle_id (subscribers c ! i)))
                   (key_left (loop_at p m (subscribers c) w i)) m
                   (world_left (loop_at p m (subscribers c) w i)) \<and>
               key_left (loop_at p m (subscribers c) w (Suc i)) =
                 params_left (callback (subscribers c ! i)
                   (key_left (loop_at p m (subscribers c) w i)) m) \<and>
               thrown (loop_at p m (subscribers c) w (Suc i)) =
                 throws (callback (subscribers c ! i)
                   (key_left (loop_at p m (subscribers c) w i)) m) \<and>
               subscribers (fst (fst (topic_message_callback p m (c, w)))) ! i =
                 (if throws (callback (subscribers c ! i)
                       (key_left (loop_at p m (subscribers c) w i)) m)
                  then subscribers c ! i
                  else (subscribers c ! i)
                    \<lparr>last_sent := now (world_left (loop_at p m (subscribers c) w i)) +
                       int (elapsed (callback (subscribers c ! i)
                         (key_left (loop_at p m (subscribers c) w i)) m))\<rparr>)
          else world_left (loop_at p m (subscribers c) w (Suc i)) =
                 world_left (loop_at p m (subscribers c) w i) \<and>
               key_left (loop_at p m (subscribers c) w (Suc i)) =
                 key_left (loop_at p m (subscribers c) w i) \<and>
               thrown (loop_at p m (subscribers c) w (Suc i)) =
                 thrown (loop_at p m (subscribers c) w i) \<and>
               subscribers (fst (fst (topic_message_callback p m (c, w)))) ! i =
                 subscribers c ! i) \<and>
         snd (fst (topic_message_callback p m (c, w))) =
           world_left (loop_at p m (subscribers c) w (length (subscribers c))) \<and>
         snd (topic_message_callback p m (c, w)) =
           (key_left (loop_at p m (subscribers c) w (length (subscribers c))),
            thrown (loop_at p m (subscribers c) w (length (subscribers c)))) \<and>
         (list_all (\<lambda>s. returns_unchanged (callback s) p m) (subscribers c) \<longrightarrow>
            key_left (loop_at p m (subscribers c) w i) = p \<and>
            \<not> thrown (loop_at p m (subscribers c) w i)) \<and>
         (length evs < 2 ^ 64 \<and> a < b \<and>
          b < length (invocations (snd (execute evs
                (Connector n, \<lparr>now = t0, invocations = []\<rparr>)))) \<and>
          invocations (snd (execute evs (Connector n, \<lparr>now = t0, invocations = []\<rparr>))) ! a =
            Delivered h k1 m1 t1 True \<and>
          invocations (snd (execute evs (Connector n, \<lparr>now = t0, invocations = []\<rparr>))) ! b =
            Delivered h k2 m2 t2 ok \<and>
          0 < throttle_rate k2 \<longrightarrow>
            t1 + throttle_rate k2 < t2)"
proof (intro conjI impI)
  show "loop_at p m (subscribers c) w 0 =
      \<lparr>subs_left = [], key_left = p, world_left = w, thrown = False\<rparr>"
    by simp
next
  show "if \<not> thrown (loop_at p m (subscribers c) w i) \<and>
             params_eq (params (subscribers c ! i)) (key_left (loop_at p m (subscribers c) w i)) \<and>
             \<not> throttled (key_left (loop_at p m (subscribers c) w i)) (subscribers c ! i)
                 (now (world_left (loop_at p m (subscribers c) w i)))
          then world_left (loop_at p m (subscribers c) w (Suc i)) =
                 invoke (callback (subscribers c ! i)) (Delivered (handle_id (subscribers c ! i)))
                   (key_left (loop_at p m (subscribers c) w i)) m
                   (world_left (loop_at p m (subscribers c) w i)) \<and>
               key_left (loop_at p m (subscribers c) w (Suc i)) =
                 params_left (callback (subscribers c ! i)
                   (key_left (loop_at p m (subscribers c) w i)) m) \<and>
               thrown (loop_at p m (subscribers c) w (Suc i)) =
                 throws (callback (subscribers c ! i)
                   (key_left (loop_at p m (subscribers c) w i)) m) \<and>
               subscribers (fst (fst (topic_message_callback p m (c, w)))) ! i =
                 (if throws (callback (subscribers c ! i)
                       (key_left (loop_at p m (subscribers c) w i)) m)
                  then subscribers c ! i
                  else (subscribers c ! i)
                    \<lparr>last_sent := now (world_left (loop_at p m (subscribers c) w i)) +
                       int (elapsed (callback (subscribers c ! i)
                         (key_left (loop_at p m (subscribers c) w i)) m))\<rparr>)
          else world_left (loop_at p m (subscribers c) w (Suc i)) =
                 world_left (loop_at p m (subscribers c) w i) \<and>
               key_left (loop_at p m (subscribers c) w (Suc i)) =
                 key_left (loop_at p m (subscribers c) w i) \<and>
               thrown (loop_at p m (subscribers c) w (Suc i)) =
                 thrown (loop_at p m (subscribers c) w i) \<and>
               subscribers (fst (fst (topic_message_callback p m (c, w)))) ! i =
                 subscribers c ! i"
    using dispatch_step [OF assms, of p m w]
    by (simp add: topic_message_callback_eq)
next
  show "snd (fst (topic_message_callback p m (c, w))) =
      world_left (loop_at p m (subscribers c) w (length (subscribers c)))"
    by (simp add: topic_message_callback_eq loop_at_length)
next
  show "snd (topic_message_callback p m (c, w)) =
      (key_left (loop_at p m (subscribers c) w (length (subscribers c))),
       thrown (loop_at p m (subscribers c) w (length (subscribers c))))"
    by (simp add: topic_message_callback_eq loop_at_length)
next
  assume "list_all (\<lambda>s. returns_unchanged (callback s) p m) (subscribers c)"
  from loop_at_well_behaved [OF this, of w i]
  show "key_left (loop_at p m (subscribers c) w i) = p"
    and "\<not> thrown (loop_at p m (subscribers c) w i)"
    by simp_all
next
  assume run: "length evs < 2 ^ 64 \<and> a < b \<and>
          b < length (invocations (snd (execute evs
                (Connector n, \<lparr>now = t0, invocations = []\<rparr>)))) \<and>
          invocations (snd (execute evs (Connector n, \<lparr>now = t0, invocations = []\<rparr>))) ! a =
            Delivered h k1 m1 t1 True \<and>
          invocations (snd (execute evs (Connector n, \<lparr>now = t0, invocations = []\<rparr>))) ! b =
            Delivered h k2 m2 t2 ok \<and>
          0 < throttle_rate k2"
  then have "spaced (invocations (snd (execute evs
      (Connector n, \<lparr>now = t0, invocations = []\<rparr>))))"
    using execute_spaced by blast
  from spaced_nth [OF this] run show "t1 + throttle_rate k2 < t2"
    by blast
qed

text \<open>
  C2, as the specification states it, fails at the boundary: a registration with rate 100
  and \<open>lastSent = 0\<close> is not throttled at the reading 100 in the words of the
  specification, yet the dispatch at that reading calls no callback.
\<close>

theorem boundary_reading_not_delivered:
  "params_eq
     (params (hd (subscribers (snd (subscribe_to_topic 1 (topic_params5 ''t'' ''T'' 10 ''none'' 100)
        (lasting 0) (Connector quiet_node))))))
     (topic_params5 ''t'' ''T'' 10 ''none'' 100) \<and>
   \<not> throttled_spec (topic_params5 ''t'' ''T'' 10 ''none'' 100)
     (hd (subscribers (snd (subscribe_to_topic 1 (topic_params5 ''t'' ''T'' 10 ''none'' 100)
        (lasting 0) (Connector quiet_node))))) 100 \<and>
   invocations (snd (fst (topic_message_callback (topic_params5 ''t'' ''T'' 10 ''none'' 100) []
     (snd (subscribe_to_topic 1 (topic_params5 ''t'' ''T'' 10 ''none'' 100)
        (lasting 0) (Connector quiet_node)),
      \<lparr>now = 100, invocations = []\<rparr>)))) = []"
  by (simp add: subscribe_fresh Connector_def quiet_node_def topic_message_callback_eq
      dispatch_loop_Cons throttled_spec_def throttled_def params_eq_iff topic_params5_def)

theorem throttle_condition_witness:
  "0 < length (subscribers (snd (subscribe_to_topic 1 (topic_params5 ''t'' ''T'' 10 ''none'' 100)
        (lasting 0) (Connector quiet_node)))) \<and>
   list_all (\<lambda>s. returns_unchanged (callback s) (topic_params5 ''t'' ''T'' 10 ''none'' 100) [])
     (subscribers (snd (subscribe_to_topic 1 (topic_params5 ''t'' ''T'' 10 ''none'' 100)
        (lasting 0) (Connector quiet_node)))) \<and>
   invocations (snd (fst (topic_message_callback (topic_params5 ''t'' ''T'' 10 ''none'' 100) []
     (snd (subscribe_to_topic 1 (topic_params5 ''t'' ''T'' 10 ''none'' 100)
        (lasting 0) (Connector quiet_node)),
      \<lparr>now = 101, invocations = []\<rparr>)))) =
     [Delivered 0 (topic_params5 ''t'' ''T'' 10 ''none'' 100) [] 101 True] \<and>
   last_sent (subscribers (fst (fst (topic_message_callback
     (topic_params5 ''t'' ''T'' 10 ''none'' 100) []
     (snd (subscribe_to_topic 1 (topic_params5 ''t'' ''T'' 10 ''none'' 100)
        (lasting 0) (Connector quiet_node)),
      \<lparr>now = 101, invocations = []\<rparr>)))) ! 0) = 101 \<and>
   length [Call (Subscribe 1 (topic_params5 ''t'' ''T'' 10 ''none'' 100) (lasting 0)),
       Elapse 101, Inbound (topic_params5 ''t'' ''T'' 10 ''none'' 100) [],
       Elapse 101, Inbound (topic_params5 ''t'' ''T'' 10 ''none'' 100) []] < (2 :: nat) ^ 64 \<and>
   invocations (snd (execute
      [Call (Subscribe 1 (topic_params5 ''t'' ''T'' 10 ''none'' 100) (lasting 0)),
       Elapse 101, Inbound (topic_params5 ''t'' ''T'' 10 ''none'' 100) [],
       Elapse 101, Inbound (topic_params5 ''t'' ''T'' 10 ''none'' 100) []]
      (Connector quiet_node, \<lparr>now = 0, invocations = []\<rparr>))) =
     [Delivered 0 (topic_params5 ''t'' ''T'' 10 ''none'' 100) [] 101 True,
      Delivered 0 (topic_params5 ''t'' ''T'' 10 ''none'' 100) [] 202 True] \<and>
   (101 :: int) + throttle_rate (topic_params5 ''t'' ''T'' 10 ''none'' 100) < 202"
proof -
  define P where "P = topic_params5 ''t'' ''T'' 10 ''none'' 100"
  define C where "C = snd (subscribe_to_topic 1 P (lasting 0) (Connector quiet_node))"
  define W where "W = \<lparr>now = 101, invocations = []\<rparr>"
  define EVS where "EVS = [Call (Subscribe 1 P (lasting 0)), Elapse 101, Inbound P [],
       Elapse 101, Inbound P []]"
  define LOG where "LOG = invocations (snd (execute EVS
      (Connector quiet_node, \<lparr>now = 0, invocations = []\<rparr>)))"
  have rate: "throttle_rate P = 100"
    by (simp add: P_def topic_params5_def)
  have C: "C = \<lparr>node = \<lparr>publishers_info = (\<lambda>t. []),
        subscriptions = [\<lparr>sub_topic = topic P, sub_type = type P,
          sub_qos = subscribe_qos P quiet_node, on_message = Dispatch P, sub_use_count = 1\<rparr>],
        publications = []\<rparr>,
      subscribers = [\<lparr>params = P, client_id = 1, handle_id = 0, subscription = Some 0,
        callback = lasting 0, last_sent = 0\<rparr>],
      publishers = [], next_handler_id = 1, replay_threads = []\<rparr>"
    unfolding C_def by (simp add: subscribe_fresh Connector_def quiet_node_def)
  have subs: "subscribers C =
      [\<lparr>params = P, client_id = 1, handle_id = 0, subscription = Some 0,
        callback = lasting 0, last_sent = 0\<rparr>]"
    by (simp add: C)
  have len: "0 < length (subscribers C)"
    by (simp add: subs)
  have len1: "length (subscribers C) = Suc 0"
    by (simp add: subs)
  have wb: "list_all (\<lambda>s. returns_unchanged (callback s) P []) (subscribers C)"
    by (simp add: subs returns_unchanged_def lasting_def)
  have log: "LOG = [Delivered 0 P [] 101 True, Delivered 0 P [] 202 True]"
  proof -
    have "execute EVS (Connector quiet_node, \<lparr>now = 0, invocations = []\<rparr>) =
        execute [Elapse 101, Inbound P [], Elapse 101, Inbound P []]
          (C, \<lparr>now = 0, invocations = []\<rparr>)"
      unfolding EVS_def C_def by (simp add: split_beta)
    then show ?thesis
      unfolding LOG_def
      by (simp add: topic_message_callback_eq C dispatch_loop_Cons params_eq_iff
          throttled_def rate invoke_def lasting_def)
  qed
  have evs: "length EVS < 2 ^ 64"
    by (simp add: EVS_def)
  note th = throttle_condition [OF len, where p = P and m = "[]" and w = W and evs = EVS
      and n = quiet_node and ?t0.0 = 0 and a = 0 and b = 1 and h = 0 and ?k1.0 = P
      and ?m1.0 = "[]" and ?t1.0 = 101 and ?k2.0 = P and ?m2.0 = "[]" and ?t2.0 = 202
      and ok = True]
  from th wb have key: "key_left (loop_at P [] (subscribers C) W 0) = P"
    and nothrown: "\<not> thrown (loop_at P [] (subscribers C) W 0)"
    by blast+
  have start: "world_left (loop_at P [] (subscribers C) W 0) = W"
    using th by simp
  have cond: "params_eq (params (subscribers C ! 0)) (key_left (loop_at P [] (subscribers C) W 0)) \<and>
      \<not> throttled (key_left (loop_at P [] (subscribers C) W 0)) (subscribers C ! 0)
          (now (world_left (loop_at P [] (subscribers C) W 0)))"
    unfolding key start by (simp add: subs params_eq_iff throttled_def rate W_def)
  from th cond nothrown
  have a: "world_left (loop_at P [] (subscribers C) W (Suc 0)) =
        invoke (callback (subscribers C ! 0)) (Delivered (handle_id (subscribers C ! 0)))
          (key_left (loop_at P [] (subscribers C) W 0)) []
          (world_left (loop_at P [] (subscribers C) W 0))"
    and b: "subscribers (fst (fst (topic_message_callback P [] (C, W)))) ! 0 =
        (if throws (callback (subscribers C ! 0) (key_left (loop_at P [] (subscribers C) W 0)) [])
         then subscribers C ! 0
         else (subscribers C ! 0)\<lparr>last_sent := now (world_left (loop_at P [] (subscribers C) W 0)) +
           int (elapsed (callback (subscribers C ! 0)
             (key_left (loop_at P [] (subscribers C) W 0)) []))\<rparr>)"
    and d: "snd (fst (topic_message_callback P [] (C, W))) =
        world_left (loop_at P [] (subscribers C) W (length (subscribers C)))"
    by presburger+
  have pair: "101 + throttle_rate P < (202 :: int)"
    using th evs unfolding LOG_def [symmetric] log by (simp add: rate)
  have "0 < length (subscribers C) \<and>
      list_all (\<lambda>s. returns_unchanged (callback s) P []) (subscribers C) \<and>
      invocations (snd (fst (topic_message_callback P [] (C, W)))) =
        [Delivered 0 P [] 101 True] \<and>
      last_sent (subscribers (fst (fst (topic_message_callback P [] (C, W)))) ! 0) = 101 \<and>
      length EVS < 2 ^ 64 \<and>
      LOG = [Delivered 0 P [] 101 True, Delivered 0 P [] 202 True] \<and>
      101 + throttle_rate P < (202 :: int)"
    unfolding b d len1 a key start
    using len wb evs log pair
    by (simp add: subs invoke_def lasting_def W_def)
  then show ?thesis
    unfolding LOG_def EVS_def P_def C_def W_def .
qed

text \<open>
  C3, amended. When the callback of the registration at position \<open>i\<close> is called and
  returns, \<open>lastSent\<close> becomes the clock reading taken after the callback has returned,
  which is the reading of the throttle comparison plus the time the callback took; the
  registration is then throttled, for any key, up to that later reading plus the rate, so
  the duration of the callback lengthens the throttle interval. When the callback throws,
  \<open>lastSent\<close> is not written at all. When every callback of the list returns and
  leaves the dispatch key as it is, the key at position \<open>i\<close> is the dispatch key.
\<close>

theorem last_sent_after_callback:
  assumes "i < length (subscribers c)"
    and "\<not> thrown (loop_at p m (subscribers c) w i)"
    and "params_eq (params (subscribers c ! i)) (key_left (loop_at p m (subscribers c) w i))"
    and "\<not> throttled (key_left (loop_at p m (subscribers c) w i)) (subscribers c ! i)
           (now (world_left (loop_at p m (subscribers c) w i)))"
  shows "(if throws (callback (subscribers c ! i) (key_left (loop_at p m (subscribers c) w i)) m)
          then subscribers (fst (fst (topic_message_callback p m (c, w)))) ! i = subscribers c ! i
          else last_sent (subscribers (fst (fst (topic_message_callback p m (c, w)))) ! i) =
                 now (invoke (callback (subscribers c ! i))
                        (Delivered (handle_id (subscribers c ! i)))
                        (key_left (loop_at p m (subscribers c) w i)) m
                        (world_left (loop_at p m (subscribers c) w i))) \<and>
               last_sent (subscribers (fst (fst (topic_message_callback p m (c, w)))) ! i) =
                 now (world_left (loop_at p m (subscribers c) w i)) +
                 int (elapsed (callback (subscribers c ! i)
                   (key_left (loop_at p m (subscribers c) w i)) m)) \<and>
               (throttled q (subscribers (fst (fst (topic_message_callback p m (c, w)))) ! i) t
                  \<longleftrightarrow>
                  throttle_rate q \<noteq> 0 \<and>
                  t \<le> now (world_left (loop_at p m (subscribers c) w i)) +
                        int (elapsed (callback (subscribers c ! i)
                          (key_left (loop_at p m (subscribers c) w i)) m)) +
                        throttle_rate q)) \<and>
         (list_all (\<lambda>s. returns_unchanged (callback s) p m) (subscribers c) \<longrightarrow>
            key_left (loop_at p m (subscribers c) w i) = p \<and>
            last_sent (subscribers (fst (fst (topic_message_callback p m (c, w)))) ! i) =
              now (world_left (loop_at p m (subscribers c) w i)) +
              int (elapsed (callback (subscribers c ! i) p m)) \<and>
            (throttled p (subscribers (fst (fst (topic_message_callback p m (c, w)))) ! i) t
               \<longleftrightarrow>
               throttle_rate p \<noteq> 0 \<and>
               t \<le> now (world_left (loop_at p m (subscribers c) w i)) +
                     int (elapsed (callback (subscribers c ! i) p m)) + throttle_rate p))"
proof -
  let ?k = "key_left (loop_at p m (subscribers c) w i)"
  let ?r = "subscribers (fst (fst (topic_message_callback p m (c, w)))) ! i"
  let ?t = "now (world_left (loop_at p m (subscribers c) w i))"
  from dispatch_step [OF assms(1), of p m w] assms(2,3,4)
  have res: "?r = (if throws (callback (subscribers c ! i) ?k m) then subscribers c ! i
      else (subscribers c ! i)\<lparr>last_sent := ?t +
        int (elapsed (callback (subscribers c ! i) ?k m))\<rparr>)"
    by (simp add: topic_message_callback_eq)
  have first: "if throws (callback (subscribers c ! i) ?k m)
          then ?r = subscribers c ! i
          else last_sent ?r =
                 now (invoke (callback (subscribers c ! i))
                        (Delivered (handle_id (subscribers c ! i))) ?k m
                        (world_left (loop_at p m (subscribers c) w i))) \<and>
               last_sent ?r = ?t + int (elapsed (callback (subscribers c ! i) ?k m)) \<and>
               (throttled q ?r t \<longleftrightarrow>
                  throttle_rate q \<noteq> 0 \<and>
                  t \<le> ?t + int (elapsed (callback (subscribers c ! i) ?k m)) + throttle_rate q)"
    unfolding res by (simp add: now_invoke throttled_def)
  have second: "?k = p \<and>
      last_sent ?r = ?t + int (elapsed (callback (subscribers c ! i) p m)) \<and>
      (throttled p ?r t \<longleftrightarrow>
         throttle_rate p \<noteq> 0 \<and>
         t \<le> ?t + int (elapsed (callback (subscribers c ! i) p m)) + throttle_rate p)"
    if wb: "list_all (\<lambda>s. returns_unchanged (callback s) p m) (subscribers c)"
  proof -
    from loop_at_well_behaved [OF wb, of w i] have k: "?k = p"
      by simp
    from wb assms(1) have "returns_unchanged (callback (subscribers c ! i)) p m"
      by (simp add: list_all_length)
    then have "\<not> throws (callback (subscribers c ! i) p m)"
      by (simp add: returns_unchanged_def)
    with res k show ?thesis
      by (simp add: throttled_def)
  qed
  from first second show ?thesis
    by blast
qed

text \<open>
  C3, as the specification states it, fails: a callback that takes 500 ns, dispatched at
  the reading 1000 with rate 100, leaves \<open>lastSent = 1500\<close>, not 1000, and a message
  dispatched at the reading 1200 is held back although 1200 is more than 100 after 1000.
\<close>

theorem last_sent_is_later_reading:
  "map last_sent (subscribers (fst (fst (topic_message_callback
     (topic_params5 ''t'' ''T'' 10 ''none'' 100) []
     (snd (subscribe_to_topic 1 (topic_params5 ''t'' ''T'' 10 ''none'' 100)
        (lasting 500) (Connector quiet_node)),
      \<lparr>now = 1000, invocations = []\<rparr>))))) = [1500] \<and>
   invocations (snd (fst (topic_message_callback (topic_params5 ''t'' ''T'' 10 ''none'' 100) []
     (snd (subscribe_to_topic 1 (topic_params5 ''t'' ''T'' 10 ''none'' 100)
        (lasting 500) (Connector quiet_node)),
      \<lparr>now = 1000, invocations = []\<rparr>)))) =
     [Delivered 0 (topic_params5 ''t'' ''T'' 10 ''none'' 100) [] 1000 True] \<and>
   invocations (snd (fst (topic_message_callback (topic_params5 ''t'' ''T'' 10 ''none'' 100) []
     (fst (fst (topic_message_callback (topic_params5 ''t'' ''T'' 10 ''none'' 100) []
        (snd (subscribe_to_topic 1 (topic_params5 ''t'' ''T'' 10 ''none'' 100)
           (lasting 500) (Connector quiet_node)),
         \<lparr>now = 1000, invocations = []\<rparr>))),
      \<lparr>now = 1200, invocations = []\<rparr>)))) = []"
  by (simp add: subscribe_fresh Connector_def quiet_node_def topic_message_callback_eq
      dispatch_loop_Cons throttled_def params_eq_iff lasting_def invoke_def)
     (simp add: topic_params5_def)

theorem last_sent_after_callback_witness:
  "0 < length (subscribers (snd (subscribe_to_topic 1 (topic_params5 ''t'' ''T'' 10 ''none'' 100)
        (lasting 500) (Connector quiet_node)))) \<and>
   list_all (\<lambda>s. returns_unchanged (callback s) (topic_params5 ''t'' ''T'' 10 ''none'' 100) [])
     (subscribers (snd (subscribe_to_topic 1 (topic_params5 ''t'' ''T'' 10 ''none'' 100)
        (lasting 500) (Connector quiet_node)))) \<and>
   last_sent (subscribers (fst (fst (topic_message_callback
     (topic_params5 ''t'' ''T'' 10 ''none'' 100) []
     (snd (subscribe_to_topic 1 (topic_params5 ''t'' ''T'' 10 ''none'' 100)
        (lasting 500) (Connector quiet_node)),
      \<lparr>now = 1000, invocations = []\<rparr>)))) ! 0) = 1000 + 500"
proof -
  define P where "P = topic_params5 ''t'' ''T'' 10 ''none'' 100"
  define C where "C = snd (subscribe_to_topic 1 P (lasting 500) (Connector quiet_node))"
  define W where "W = \<lparr>now = 1000, invocations = []\<rparr>"
  have rate: "throttle_rate P = 100"
    by (simp add: P_def topic_params5_def)
  have subs: "subscribers C =
      [\<lparr>params = P, client_id = 1, handle_id = 0, subscription = Some 0,
        callback = lasting 500, last_sent = 0\<rparr>]"
    unfolding C_def by (simp add: subscribe_fresh Connector_def quiet_node_def)
  have len: "0 < length (subscribers C)"
    by (simp add: subs)
  have wb: "list_all (\<lambda>s. returns_unchanged (callback s) P []) (subscribers C)"
    by (simp add: subs returns_unchanged_def lasting_def)
  have nt: "\<not> thrown (loop_at P [] (subscribers C) W 0)"
    by simp
  have eq: "params_eq (params (subscribers C ! 0)) (key_left (loop_at P [] (subscribers C) W 0))"
    by (simp add: subs params_eq_iff)
  have nthr: "\<not> throttled (key_left (loop_at P [] (subscribers C) W 0)) (subscribers C ! 0)
      (now (world_left (loop_at P [] (subscribers C) W 0)))"
    by (simp add: subs throttled_def rate W_def)
  from last_sent_after_callback [OF len nt eq nthr] wb
  have "last_sent (subscribers (fst (fst (topic_message_callback P [] (C, W)))) ! 0) =
      now (world_left (loop_at P [] (subscribers C) W 0)) +
      int (elapsed (callback (subscribers C ! 0) P []))"
    by blast
  then have "last_sent (subscribers (fst (fst (topic_message_callback P [] (C, W)))) ! 0) =
      1000 + 500"
    by (simp add: subs lasting_def W_def)
  with len wb have "0 < length (subscribers C) \<and>
      list_all (\<lambda>s. returns_unchanged (callback s) P []) (subscribers C) \<and>
      last_sent (subscribers (fst (fst (topic_message_callback P [] (C, W)))) ! 0) = 1000 + 500"
    by blast
  then show ?thesis
    unfolding P_def C_def W_def .
qed

subsection \<open>The replay thread\<close>

















subsection \<open>The forward function and revocation\<close>

lemma pubs_owned_iff:
  "pubs_owned c \<longleftrightarrow>
     (\<forall>r \<in> set (publishers c). \<exists>a. publisher r = Some a \<and> a < length (publications (node c))) \<and>
     (\<forall>a < length (publications (node c)).
        pub_regs a (publishers c) \<le> pub_use_count (publications (node c) ! a))"
  by (auto simp: pubs_owned_def list_all_iff split: option.splits)

lemma get_publisher_by_params_mem:
  "get_publisher_by_params p pubs = Some mp \<Longrightarrow> mp \<in> set pubs"
  by (induction pubs) (auto split: if_splits)

lemma pub_regs_append [simp]: "pub_regs a (xs @ ys) = pub_regs a xs + pub_regs a ys"
  by (simp add: pub_regs_def)

lemma pub_regs_none:
  "\<forall>r \<in> set pubs. publisher r \<noteq> Some a \<Longrightarrow> pub_regs a pubs = 0"
  by (induction pubs) (simp_all add: pub_regs_def)

lemma pub_regs_erase:
  "find_handle h pubs = Some r \<Longrightarrow>
     pub_regs a pubs = pub_regs a (erase_handle h pubs) + (if publisher r = Some a then 1 else 0)"
  by (induction pubs) (auto simp: pub_regs_def split: if_splits)

lemma length_erase:
  "find_handle h pubs = Some r \<Longrightarrow> Suc (length (erase_handle h pubs)) = length pubs"
  by (induction pubs) (auto split: if_splits)

lemma adjust_pub_length [simp]:
  "length (publications (adjust_pub f ptr n)) = length (publications n)"
  by (simp add: adjust_pub_def split: option.splits)

lemma adjust_pub_count:
  "a < length (publications n) \<Longrightarrow>
     pub_use_count (publications (adjust_pub f ptr n) ! a) =
       (if ptr = Some a then f (pub_use_count (publications n ! a))
        else pub_use_count (publications n ! a))"
  by (auto simp: adjust_pub_def nth_list_update split: option.splits)

lemma adjust_pub_written:
  "written (publications (adjust_pub f ptr n) ! a) = written (publications n ! a)"
  by (cases "a < length (publications n)")
     (auto simp: adjust_pub_def nth_list_update split: option.splits)

lemma revoke_publisher_held:
  assumes "held a c"
  shows "held a (revoke_publisher h c)"
proof (cases "find_handle h (publishers c)")
  case None
  with assms show ?thesis by (simp add: revoke_publisher_def)
next
  case (Some r)
  from assms have a: "a < length (publications (node c))"
    and lt: "pub_regs a (publishers c) < pub_use_count (publications (node c) ! a)"
    by (simp_all add: held_def)
  note er = pub_regs_erase [OF Some, of a]
  show ?thesis
  proof (cases "publisher r = Some a")
    case True
    with a lt er show ?thesis
      by (simp add: held_def revoke_publisher_def Some reset_pub_def adjust_pub_count)
  next
    case False
    with a lt er show ?thesis
      by (simp add: held_def revoke_publisher_def Some reset_pub_def adjust_pub_count)
  qed
qed

lemma revoke_publishers_held: "held a c \<Longrightarrow> held a (revoke_publishers hs c)"
  by (induction hs arbitrary: c) (simp_all add: revoke_publisher_held)

lemma advertise_held:
  assumes "pubs_owned c" and "advertise_topic cid p c = (fn, hid, c1)"
  shows "\<exists>a. fn = Some a \<and> held a c1"
proof (cases "get_publisher_by_params p (publishers c)")
  case None
  from assms(1) have "\<forall>r \<in> set (publishers c). publisher r \<noteq> Some (length (publications (node c)))"
    by (auto simp: pubs_owned_iff)
  then have "pub_regs (length (publications (node c))) (publishers c) = 0"
    by (rule pub_regs_none)
  with assms(2) show ?thesis
    by (auto simp: advertise_fresh [OF None] held_def pub_regs_def)
next
  case (Some mp)
  then have "mp \<in> set (publishers c)"
    by (rule get_publisher_by_params_mem)
  with assms(1) obtain a where a: "publisher mp = Some a" "a < length (publications (node c))"
    and le: "pub_regs a (publishers c) \<le> pub_use_count (publications (node c) ! a)"
    by (auto simp: pubs_owned_iff)
  from assms(2) have fn: "fn = Some a"
    and c1: "c1 = c\<lparr>next_handler_id := next_handler_id c + 1,
        publishers := publishers c @
           [\<lparr>params = p, client_id = ucast cid, handle_id = next_handler_id c,
             publisher = Some a\<rparr>],
        node := copy_pub (Some a) (copy_pub (Some a) (node c))\<rparr>"
    by (auto simp: advertise_reuse [OF Some] a(1))
  have "pub_use_count (publications (node c1) ! a) =
      Suc (Suc (pub_use_count (publications (node c) ! a)))"
    using a(2) by (simp add: c1 copy_pub_def adjust_pub_count)
  moreover have "pub_regs a (publishers c1) = Suc (pub_regs a (publishers c))"
    by (simp add: c1 pub_regs_def)
  moreover have "a < length (publications (node c1))"
    using a(2) by (simp add: c1 copy_pub_def)
  ultimately have "held a c1"
    using le by (simp add: held_def)
  with fn show ?thesis
    by blast
qed

lemma forward_writes:
  assumes "a < length (publications (node c))"
  shows "publications (node (forward (Some a) m c)) ! a =
      (publications (node c) ! a)\<lparr>written := written (publications (node c) ! a) @ [m]\<rparr> \<and>
    publishers (forward (Some a) m c) = publishers c \<and>
    subscribers (forward (Some a) m c) = subscribers c"
  using assms by (simp add: forward_def publish_def)


text \<open>
  C10. Take a state in which every registration points into the store and is counted in
  the use count of its publication, and advertise a topic. The forward function returned
  holds a pointer of its own to the publication. After any sequence of revocations of
  publisher registrations, that of the new registration and of every other one included,
  the publication is still alive, calling the forward function writes the message through
  it and leaves the publisher list alone, and revoking the new registration has taken it
  out of the list.
\<close>

theorem forward_survives_revocation:
  assumes "pubs_owned c" and "advertise_topic cid p c = (fn, hid, c1)"
  shows "\<exists>a. fn = Some a \<and>
     pub_alive (node (revoke_publishers hs c1)) a \<and>
     publications (node (forward fn m (revoke_publishers hs c1))) ! a =
       (publications (node (revoke_publishers hs c1)) ! a)
         \<lparr>written := written (publications (node (revoke_publishers hs c1)) ! a) @ [m]\<rparr> \<and>
     publishers (forward fn m (revoke_publishers hs c1)) = publishers (revoke_publishers hs c1) \<and>
     pub_alive (node (forward fn m (revoke_publishers hs c1))) a \<and>
     length (publishers (revoke_publisher hid c1)) = length (publishers c)"
proof -
  from advertise_held [OF assms] obtain a where fn: "fn = Some a" and h1: "held a c1"
    by blast
  from h1 have h2: "held a (revoke_publishers hs c1)"
    by (rule revoke_publishers_held)
  then have a: "a < length (publications (node (revoke_publishers hs c1)))"
    and cnt: "0 < pub_use_count (publications (node (revoke_publishers hs c1)) ! a)"
    by (simp_all add: held_def)
  note fw = forward_writes [OF a, of m]
  have alive: "pub_alive (node (revoke_publishers hs c1)) a"
    using a cnt by (simp add: pub_alive_def)
  have alive': "pub_alive (node (forward fn m (revoke_publishers hs c1))) a"
    using a cnt by (simp add: pub_alive_def fn forward_def publish_def)
  have hid: "hid = next_handler_id c" and last: "handle_id (last (publishers c1)) = next_handler_id c"
    and len1: "length (publishers c1) = Suc (length (publishers c))"
    using assms(2) by (cases "get_publisher_by_params p (publishers c)";
      auto simp: advertise_fresh advertise_reuse)+
  have "publishers c1 \<noteq> []"
    using len1 by auto
  then have "hid \<in> handle_id ` set (publishers c1)"
    using last hid by (metis image_eqI last_in_set)
  then obtain r where "find_handle hid (publishers c1) = Some r"
    using find_handle_None_iff [of hid "publishers c1"] by (cases "find_handle hid (publishers c1)") auto
  then have gone: "length (publishers (revoke_publisher hid c1)) = length (publishers c)"
    using length_erase [of hid "publishers c1" r] len1 by (simp add: revoke_publisher_def)
  show ?thesis
    using fn alive alive' fw gone by simp
qed

theorem forward_survives_revocation_witness:
  "pubs_owned (Connector quiet_node) \<and>
   fst (advertise_topic 1 (topic_params4 ''t'' ''T'' 10 True) (Connector quiet_node)) = Some 0 \<and>
   publishers (revoke_publishers [0]
     (snd (snd (advertise_topic 1 (topic_params4 ''t'' ''T'' 10 True) (Connector quiet_node))))) = [] \<and>
   pub_alive (node (revoke_publishers [0]
     (snd (snd (advertise_topic 1 (topic_params4 ''t'' ''T'' 10 True) (Connector quiet_node)))))) 0 \<and>
   written (publications (node (forward (Some 0) [7] (revoke_publishers [0]
     (snd (snd (advertise_topic 1 (topic_params4 ''t'' ''T'' 10 True) (Connector quiet_node))))))) ! 0) =
     [[7]] \<and>
   \<not> pub_alive (node (drop_forward (Some 0) (revoke_publishers [0]
     (snd (snd (advertise_topic 1 (topic_params4 ''t'' ''T'' 10 True) (Connector quiet_node))))))) 0"
proof -
  define P where "P = topic_params4 ''t'' ''T'' 10 True"
  define C where "C = Connector quiet_node"
  have own: "pubs_owned C"
    by (simp add: pubs_owned_def C_def Connector_def quiet_node_def)
  have none: "get_publisher_by_params P (publishers C) = None"
    by (simp add: C_def Connector_def)
  define C1 where "C1 = snd (snd (advertise_topic 1 P C))"
  have adv: "advertise_topic 1 P C = (Some 0, 0, C1)"
    unfolding C1_def advertise_fresh [OF none] by (simp add: C_def Connector_def quiet_node_def)
  have C1: "C1 =
       \<lparr>node = \<lparr>publishers_info = (\<lambda>t. []), subscriptions = [],
          publications = [\<lparr>pub_topic = topic P, pub_type = type P, pub_qos = advertise_qos P,
            written = [], pub_use_count = 2\<rparr>]\<rparr>,
        subscribers = [],
        publishers = [\<lparr>params = P, client_id = 1, handle_id = 0, publisher = Some 0\<rparr>],
        next_handler_id = 1, replay_threads = []\<rparr>"
    unfolding C1_def advertise_fresh [OF none] by (simp add: C_def Connector_def quiet_node_def)
  define R where "R = revoke_publishers [0] C1"
  note th = forward_survives_revocation [OF own adv, of "[0]" "[7]", folded R_def]
  have rev: "R =
       \<lparr>node = \<lparr>publishers_info = (\<lambda>t. []), subscriptions = [],
          publications = [\<lparr>pub_topic = topic P, pub_type = type P, pub_qos = advertise_qos P,
            written = [], pub_use_count = 1\<rparr>]\<rparr>,
        subscribers = [], publishers = [], next_handler_id = 1, replay_threads = []\<rparr>"
    unfolding R_def C1 by (simp add: revoke_publisher_def reset_pub_def adjust_pub_def)
  from th have alive: "pub_alive (node R) 0"
    and wr: "publications (node (forward (Some 0) [7] R)) ! 0 =
       (publications (node R) ! 0)\<lparr>written := written (publications (node R) ! 0) @ [[7]]\<rparr>"
    by simp_all
  have "pubs_owned C \<and> fst (advertise_topic 1 P C) = Some 0 \<and>
      publishers R = [] \<and> pub_alive (node R) 0 \<and>
      written (publications (node (forward (Some 0) [7] R)) ! 0) = [[7]] \<and>
      \<not> pub_alive (node (drop_forward (Some 0) R)) 0"
    using own alive unfolding wr unfolding rev
    by (simp add: adv drop_forward_def reset_pub_def adjust_pub_def pub_alive_def)
  then show ?thesis
    unfolding R_def C1_def P_def C_def .
qed

end
